theory Spec2Isabelle
  imports Main "HOL-Library.Product_Lexorder" "HOL-Library.Multiset"
begin

section \<open>Data model\<close>

text \<open>
  The queue engine of \<^verbatim>\<open>src/core/MessageQueue.ts\<close> over the schema that
  \<^verbatim>\<open>DatabaseManager.createTables\<close> declares. Identifiers are the strings
  \<^verbatim>\<open>uuidv4()\<close> returns; every operation that calls \<^verbatim>\<open>uuidv4()\<close> takes the
  generated identifier as an argument. \<^verbatim>\<open>Date.now()\<close> is a number of milliseconds and
  SQLite's \<^verbatim>\<open>strftime('%s','now')\<close> the same instant in whole seconds; an operation
  takes the clock reading of its transaction as the argument \<open>now\<close> (milliseconds).
\<close>

type_synonym uuid = string
type_synonym millis = int
type_synonym seconds = int

text \<open>\<^verbatim>\<open>Math.floor(t / 1000)\<close>: integer division on \<open>int\<close> rounds down.\<close>

definition to_seconds :: "millis \<Rightarrow> seconds" where
  "to_seconds t = t div 1000"

text \<open>
  \<^verbatim>\<open>Math.floor(new Date(t).getTime() / 1000)\<close> as SQLite stores it. A \<^verbatim>\<open>Date\<close> holds at
  most 8.64e15 milliseconds either side of the epoch; beyond that \<^verbatim>\<open>getTime()\<close> is NaN,
  and SQLite stores a NaN it is given as NULL. A reading of \<^verbatim>\<open>Date.now()\<close> is always in
  range; a reading plus a caller's delay need not be.
\<close>

definition date_seconds :: "millis \<Rightarrow> seconds option" where
  "date_seconds t =
     (if - 8640000000000000 \<le> t \<and> t \<le> 8640000000000000 then Some (to_seconds t) else None)"

text \<open>
  A payload is any JSON value; the \<^verbatim>\<open>payload\<close> and \<^verbatim>\<open>metadata\<close> columns hold
  \<^verbatim>\<open>JSON.stringify\<close> of the value and the reader applies \<^verbatim>\<open>JSON.parse\<close>, so a
  column is modelled by the value it encodes. \<^verbatim>\<open>JSON.stringify(null)\<close> is the text
  \<^verbatim>\<open>null\<close>, which is not SQL NULL.
\<close>

datatype json = JNull | JBool bool | JNum int | JStr string
  | JArr "json list" | JObj "(string \<times> json) list"

type_synonym metadata = "(string \<times> json) list"

text \<open>\<^verbatim>\<open>MESSAGE_STATUS\<close> of \<^verbatim>\<open>src/types/message/status.ts\<close>.\<close>

datatype message_status = Pending | Processing | Completed | Failed | Scheduled | Archived

text \<open>A row of table \<^verbatim>\<open>messages\<close>.\<close>

record message_row =
  r_id :: uuid
  r_queue_name :: string
  r_payload :: json
  r_status :: message_status
  r_priority :: int
  r_retries :: int
  r_max_retries :: int
  r_created_at :: seconds
  r_available_at :: "seconds option"
  r_processed_at :: "seconds option"
  r_failed_at :: "seconds option"
  r_error_message :: "string option"
  r_processing_time :: "int option"
  r_metadata :: "metadata option"
  r_deduplication_id :: "string option"
  r_expires_at :: "seconds option"

text \<open>A row of table \<^verbatim>\<open>dead_letter_messages\<close>.\<close>

record dead_letter_row =
  d_id :: uuid
  d_original_id :: uuid
  d_queue_name :: string
  d_payload :: json
  d_error_message :: string
  d_retries :: int
  d_created_at :: seconds
  d_original_created_at :: seconds
  d_metadata :: "metadata option"

text \<open>
  The database: the names in table \<^verbatim>\<open>queues\<close> (the target of the foreign keys) and
  the two message tables, each in insertion (rowid) order.
\<close>

record database =
  queues :: "string list"
  messages :: "message_row list"
  dead_letter_messages :: "dead_letter_row list"

text \<open>Interface \<^verbatim>\<open>Message\<close> of \<^verbatim>\<open>src/types/message/type.ts\<close>; a \<^verbatim>\<open>Date\<close> is its
  \<^verbatim>\<open>getTime()\<close>.\<close>

record Message =
  m_id :: uuid
  m_queueName :: string
  m_payload :: json
  m_retries :: int
  m_maxRetries :: int
  m_priority :: int
  m_createdAt :: millis
  m_availableAt :: millis
  m_processedAt :: "millis option"
  m_failedAt :: "millis option"
  m_errorMessage :: "string option"
  m_processingTime :: "int option"
  m_metadata :: "metadata option"

text \<open>Interface \<^verbatim>\<open>SendMessageOptions\<close>; an absent field is \<open>None\<close>.\<close>

record SendMessageOptions =
  o_delay :: "int option"
  o_priority :: "int option"
  o_maxRetries :: "int option"
  o_metadata :: "metadata option"
  o_deduplicationId :: "string option"
  o_expiresAt :: "millis option"

definition no_options :: SendMessageOptions where
  "no_options = \<lparr>o_delay = None, o_priority = None, o_maxRetries = None,
     o_metadata = None, o_deduplicationId = None, o_expiresAt = None\<rparr>"

text \<open>
  What a transaction can throw: the two \<^verbatim>\<open>Error\<close>s the queue raises itself, and the
  failures of a statement against the schema (primary key, foreign key with
  \<^verbatim>\<open>foreign_keys = ON\<close>, a statement SQLite cannot parse, a \<^verbatim>\<open>LIMIT\<close> that is
  not a 64-bit integer).
\<close>

datatype error =
    DuplicateMessage string
  | DeadLetterNotFound uuid
  | SqliteConstraintPrimaryKey
  | SqliteConstraintForeignKey
  | SqliteSyntaxError
  | SqliteMismatch

section \<open>Transaction gateway and statements\<close>

text \<open>
  \<^verbatim>\<open>DatabaseManager.executeTransaction\<close>: the callback runs inside one transaction of
  better-sqlite3; when it throws, every write it made is rolled back and the error is
  rethrown, otherwise its writes are committed and its value returned.
\<close>

definition executeTransaction ::
  "(database \<Rightarrow> error + ('a \<times> database)) \<Rightarrow> database \<Rightarrow> (error + 'a) \<times> database" where
  "executeTransaction callback db =
     (case callback db of
        Inl e \<Rightarrow> (Inl e, db)
      | Inr (x, db') \<Rightarrow> (Inr x, db'))"

text \<open>\<^verbatim>\<open>INSERT INTO messages\<close>: \<^verbatim>\<open>id\<close> is the primary key and \<^verbatim>\<open>queue_name\<close>
  references \<^verbatim>\<open>queues(name)\<close>.\<close>

definition insert_message :: "message_row \<Rightarrow> database \<Rightarrow> error + database" where
  "insert_message row db =
     (if r_id row \<in> set (map r_id (messages db)) then Inl SqliteConstraintPrimaryKey
      else if r_queue_name row \<notin> set (queues db) then Inl SqliteConstraintForeignKey
      else Inr (db\<lparr>messages := messages db @ [row]\<rparr>))"

text \<open>\<^verbatim>\<open>INSERT INTO dead_letter_messages\<close>, with the same two constraints.\<close>

definition insert_dead_letter :: "dead_letter_row \<Rightarrow> database \<Rightarrow> error + database" where
  "insert_dead_letter row db =
     (if d_id row \<in> set (map d_id (dead_letter_messages db)) then Inl SqliteConstraintPrimaryKey
      else if d_queue_name row \<notin> set (queues db) then Inl SqliteConstraintForeignKey
      else Inr (db\<lparr>dead_letter_messages := dead_letter_messages db @ [row]\<rparr>))"

text \<open>\<^verbatim>\<open>UPDATE messages SET ... WHERE id = ?\<close> with the assignment \<open>f\<close>, whose right-hand
  sides read the row as it was before the statement.\<close>

definition update_where_id :: "uuid \<Rightarrow> (message_row \<Rightarrow> message_row) \<Rightarrow> database \<Rightarrow> database" where
  "update_where_id i f db =
     db\<lparr>messages := map (\<lambda>r. if r_id r = i then f r else r) (messages db)\<rparr>"

text \<open>\<^verbatim>\<open>DELETE FROM messages WHERE id = ?\<close> and
  \<^verbatim>\<open>DELETE FROM dead_letter_messages WHERE id = ?\<close>.\<close>

definition delete_message :: "uuid \<Rightarrow> database \<Rightarrow> database" where
  "delete_message i db = db\<lparr>messages := filter (\<lambda>r. r_id r \<noteq> i) (messages db)\<rparr>"

definition delete_dead_letter :: "uuid \<Rightarrow> database \<Rightarrow> database" where
  "delete_dead_letter i db =
     db\<lparr>dead_letter_messages := filter (\<lambda>d. d_id d \<noteq> i) (dead_letter_messages db)\<rparr>"

section \<open>Requeue from the dead-letter table\<close>

text \<open>
  \<^verbatim>\<open>requeueDeadLetterMessage(messageId)\<close>: look the dead-letter row up, throw when it
  is missing, insert a new message and delete the dead-letter row. The
  \<^verbatim>\<open>INSERT\<close> names no \<^verbatim>\<open>status\<close>, \<^verbatim>\<open>deduplication_id\<close> or \<^verbatim>\<open>expires_at\<close>
  column, so the schema's defaults apply (\<^verbatim>\<open>'pending'\<close>, NULL, NULL). Both calls of
  \<^verbatim>\<open>Date.now()\<close> are the one reading \<open>now\<close>.
\<close>

definition requeue_row :: "uuid \<Rightarrow> millis \<Rightarrow> dead_letter_row \<Rightarrow> message_row" where
  "requeue_row newMessageId now dlqMessage =
     \<lparr>r_id = newMessageId,
      r_queue_name = d_queue_name dlqMessage,
      r_payload = d_payload dlqMessage,
      r_status = Pending,
      r_priority = 5,
      r_retries = 0,
      r_max_retries = 3,
      r_created_at = to_seconds now,
      r_available_at = Some (to_seconds now),
      r_processed_at = None,
      r_failed_at = None,
      r_error_message = None,
      r_processing_time = None,
      r_metadata = d_metadata dlqMessage,
      r_deduplication_id = None,
      r_expires_at = None\<rparr>"

definition requeueDeadLetterMessage ::
  "uuid \<Rightarrow> millis \<Rightarrow> uuid \<Rightarrow> database \<Rightarrow> (error + unit) \<times> database" where
  "requeueDeadLetterMessage newMessageId now messageId =
     executeTransaction (\<lambda>db.
       case find (\<lambda>d. d_id d = messageId) (dead_letter_messages db) of
         None \<Rightarrow> Inl (DeadLetterNotFound messageId)
       | Some dlqMessage \<Rightarrow>
           (case insert_message (requeue_row newMessageId now dlqMessage) db of
              Inl e \<Rightarrow> Inl e
            | Inr db' \<Rightarrow> Inr ((), delete_dead_letter messageId db')))"

section \<open>Producer\<close>

text \<open>JavaScript truthiness of an optional string: absent and empty are both falsy.\<close>

definition truthy_string :: "string option \<Rightarrow> bool" where
  "truthy_string s = (case s of None \<Rightarrow> False | Some x \<Rightarrow> x \<noteq> [])"

text \<open>
  The row \<^verbatim>\<open>send\<close> binds to its \<^verbatim>\<open>INSERT\<close>: \<^verbatim>\<open>options.maxRetries ?? this.options.maxRetries\<close>,
  \<^verbatim>\<open>options.priority ?? 5\<close>, \<^verbatim>\<open>now + (options.delay || 0)\<close>,
  \<^verbatim>\<open>options.deduplicationId || null\<close>. \<open>this_maxRetries\<close> is the queue's
  \<^verbatim>\<open>options.maxRetries\<close> (3 unless the constructor is told otherwise). The option
  \<^verbatim>\<open>expiresAt\<close> is a \<^verbatim>\<open>Date\<close> the caller built; it is given by its time value, and
  \<open>None\<close> stands for an absent one (an invalid one is stored as NULL as well).
\<close>

definition send_row ::
  "uuid \<Rightarrow> millis \<Rightarrow> int \<Rightarrow> string \<Rightarrow> json \<Rightarrow> SendMessageOptions \<Rightarrow> message_row" where
  "send_row messageId now this_maxRetries queueName payload options =
     \<lparr>r_id = messageId,
      r_queue_name = queueName,
      r_payload = payload,
      r_status = Pending,
      r_priority = (case o_priority options of None \<Rightarrow> 5 | Some p \<Rightarrow> p),
      r_retries = 0,
      r_max_retries = (case o_maxRetries options of None \<Rightarrow> this_maxRetries | Some n \<Rightarrow> n),
      r_created_at = to_seconds now,
      r_available_at = date_seconds (now + (case o_delay options of None \<Rightarrow> 0 | Some d \<Rightarrow> d)),
      r_processed_at = None,
      r_failed_at = None,
      r_error_message = None,
      r_processing_time = None,
      r_metadata = o_metadata options,
      r_deduplication_id =
        (if truthy_string (o_deduplicationId options) then o_deduplicationId options else None),
      r_expires_at = map_option to_seconds (o_expiresAt options)\<rparr>"

text \<open>
  The deduplication query of \<^verbatim>\<open>send\<close>:
  \<^verbatim>\<open>SELECT id FROM messages WHERE queue_name = ? AND deduplication_id = ? AND status != 'failed'
  ORDER BY created_at DESC LIMIT 1\<close>.
  SQL leaves the order of rows with equal \<^verbatim>\<open>created_at\<close> open; the sort used here is
  stable, so such rows stay in insertion order.
\<close>

definition select_duplicate :: "string \<Rightarrow> string \<Rightarrow> database \<Rightarrow> message_row option" where
  "select_duplicate queueName dedupId db =
     (case sort_key (\<lambda>r. - r_created_at r)
             (filter (\<lambda>r. r_queue_name r = queueName \<and> r_deduplication_id r = Some dedupId
                          \<and> r_status r \<noteq> Failed) (messages db)) of
        [] \<Rightarrow> None
      | existing # _ \<Rightarrow> Some existing)"

text \<open>
  \<^verbatim>\<open>send(queueName, payload, options)\<close>. The transaction inserts the new row first and
  then, when a deduplication id is given, runs the query above on the table that already
  holds the new row; it throws when the row found is not the new one.
\<close>

definition send ::
  "uuid \<Rightarrow> millis \<Rightarrow> int \<Rightarrow> string \<Rightarrow> json \<Rightarrow> SendMessageOptions \<Rightarrow> database
     \<Rightarrow> (error + uuid) \<times> database" where
  "send messageId now this_maxRetries queueName payload options =
     executeTransaction (\<lambda>db.
       case insert_message (send_row messageId now this_maxRetries queueName payload options) db of
         Inl e \<Rightarrow> Inl e
       | Inr db' \<Rightarrow>
           (case o_deduplicationId options of
              None \<Rightarrow> Inr (messageId, db')
            | Some dedupId \<Rightarrow>
                if dedupId = [] then Inr (messageId, db')
                else
                  (case select_duplicate queueName dedupId db' of
                     None \<Rightarrow> Inr (messageId, db')
                   | Some existing \<Rightarrow>
                       if r_id existing \<noteq> messageId then Inl (DuplicateMessage dedupId)
                       else Inr (messageId, db'))))"

section \<open>Claiming a batch\<close>

text \<open>\<^verbatim>\<open>row.processed_at ? new Date(row.processed_at * 1000) : undefined\<close>: NULL and 0 are
  both falsy.\<close>

definition truthy_date :: "seconds option \<Rightarrow> millis option" where
  "truthy_date t = (case t of None \<Rightarrow> None | Some s \<Rightarrow> if s = 0 then None else Some (s * 1000))"

text \<open>The object \<^verbatim>\<open>fetchMessages\<close> builds from a row; \<^verbatim>\<open>null * 1000\<close> is 0.\<close>

definition row_to_message :: "message_row \<Rightarrow> Message" where
  "row_to_message row =
     \<lparr>m_id = r_id row,
      m_queueName = r_queue_name row,
      m_payload = r_payload row,
      m_retries = r_retries row,
      m_maxRetries = r_max_retries row,
      m_priority = r_priority row,
      m_createdAt = r_created_at row * 1000,
      m_availableAt = (case r_available_at row of None \<Rightarrow> 0 | Some a \<Rightarrow> a * 1000),
      m_processedAt = truthy_date (r_processed_at row),
      m_failedAt = truthy_date (r_failed_at row),
      m_errorMessage = r_error_message row,
      m_processingTime = r_processing_time row,
      m_metadata = r_metadata row\<rparr>"

text \<open>
  \<^verbatim>\<open>LIMIT ?\<close>. The bound number must convert to a 64-bit integer without loss, or
  the statement fails with a datatype mismatch; a negative limit is no limit. Limits are
  taken to be whole numbers, of any size.
\<close>

definition in_int64 :: "int \<Rightarrow> bool" where
  "in_int64 n = (- 9223372036854775808 \<le> n \<and> n < 9223372036854775808)"

definition sql_limit :: "int \<Rightarrow> 'a list \<Rightarrow> 'a list" where
  "sql_limit n xs = (if n < 0 then xs else take (nat n) xs)"

text \<open>\<^verbatim>\<open>available_at <= strftime('%s','now')\<close>: a comparison with NULL is not true.\<close>

definition available :: "seconds \<Rightarrow> message_row \<Rightarrow> bool" where
  "available now_s r = (case r_available_at r of None \<Rightarrow> False | Some a \<Rightarrow> a \<le> now_s)"

text \<open>The \<^verbatim>\<open>WHERE\<close> clause of the claim's \<^verbatim>\<open>SELECT\<close>:
  \<^verbatim>\<open>queue_name = ? AND status = 'pending' AND available_at <= strftime('%s','now')\<close>.\<close>

definition pending_available :: "string \<Rightarrow> seconds \<Rightarrow> message_row \<Rightarrow> bool" where
  "pending_available queueName now_s r =
     (r_queue_name r = queueName \<and> r_status r = Pending \<and> available now_s r)"

text \<open>
  \<^verbatim>\<open>SELECT * FROM messages WHERE queue_name = ? AND status = 'pending'
  AND available_at <= strftime('%s','now') ORDER BY priority DESC, created_at ASC LIMIT ?\<close>.
  Pairs are ordered lexicographically, so the key \<open>(- priority, created_at)\<close> sorts by
  priority descending and then by creation time ascending; the sort is stable, so rows
  that tie on both stay in insertion order (SQL leaves their order open). These are the
  rows the statement yields for a limit SQLite accepts.
\<close>

definition select_pending :: "string \<Rightarrow> int \<Rightarrow> seconds \<Rightarrow> database \<Rightarrow> message_row list" where
  "select_pending queueName limit now_s db =
     sql_limit limit
       (sort_key (\<lambda>r. (- r_priority r, r_created_at r))
          (filter (pending_available queueName now_s) (messages db)))"

text \<open>\<^verbatim>\<open>updateStmt\<close>:
  \<^verbatim>\<open>UPDATE messages SET status = 'processing', processing_time = strftime('%s','now') WHERE id = ?\<close>.\<close>

definition mark_processing :: "seconds \<Rightarrow> message_row \<Rightarrow> message_row" where
  "mark_processing now_s r = r\<lparr>r_status := Processing, r_processing_time := Some now_s\<rparr>"

definition updateStmt_run :: "seconds \<Rightarrow> uuid \<Rightarrow> database \<Rightarrow> database" where
  "updateStmt_run now_s i = update_where_id i (mark_processing now_s)"

text \<open>
  \<^verbatim>\<open>fetchMessages(queueName, limit)\<close>: select (the statement throws when the limit is not
  a 64-bit integer), build the message objects from the rows as selected, run
  \<^verbatim>\<open>updateStmt\<close> for each in turn, return the objects.
\<close>

definition fetchMessages ::
  "string \<Rightarrow> int \<Rightarrow> millis \<Rightarrow> database \<Rightarrow> (error + Message list) \<times> database" where
  "fetchMessages queueName limit now =
     executeTransaction (\<lambda>db.
       if \<not> in_int64 limit then Inl SqliteMismatch
       else
         let rows = select_pending queueName limit (to_seconds now) db;
             msgs = map row_to_message rows
         in Inr (msgs, fold (\<lambda>msg. updateStmt_run (to_seconds now) (m_id msg)) msgs db))"

text \<open>
  The claimability predicate in the words of the specification: pending, available, and
  not expired. It is compared with what \<^verbatim>\<open>fetchMessages\<close> selects.
\<close>

definition spec_claimable :: "seconds \<Rightarrow> message_row \<Rightarrow> bool" where
  "spec_claimable now_s r =
     (r_status r = Pending \<and> available now_s r
      \<and> (case r_expires_at r of None \<Rightarrow> True | Some e \<Rightarrow> e > now_s))"

text \<open>The order of a batch: priority descending, creation time ascending within a priority.\<close>

definition served_before :: "Message \<Rightarrow> Message \<Rightarrow> bool" where
  "served_before a b =
     (m_priority a > m_priority b \<or> (m_priority a = m_priority b \<and> m_createdAt a \<le> m_createdAt b))"

text \<open>
  The claim protocol in the words of the specification, to be compared with
  \<^verbatim>\<open>fetchMessages\<close>. Inside one transaction: select the candidates with the
  \<^verbatim>\<open>SELECT\<close> above (which throws on a limit SQLite rejects, before any row is
  selected); for each selected row run an update conditioned on the status still being
  pending at that moment (\<^verbatim>\<open>... WHERE id = ? AND status = 'pending'\<close>), which reports
  whether it changed a row; return the rows whose conditional update succeeded and leave
  the others out, without raising an error for them.
\<close>

definition conditional_update :: "seconds \<Rightarrow> uuid \<Rightarrow> database \<Rightarrow> bool \<times> database" where
  "conditional_update now_s i db =
     (filter (\<lambda>r. r_id r = i \<and> r_status r = Pending) (messages db) \<noteq> [],
      db\<lparr>messages := map (\<lambda>r. if r_id r = i \<and> r_status r = Pending
                               then mark_processing now_s r else r) (messages db)\<rparr>)"

fun claim_rows :: "seconds \<Rightarrow> message_row list \<Rightarrow> database \<Rightarrow> Message list \<times> database" where
  "claim_rows now_s [] db = ([], db)"
| "claim_rows now_s (row # rows) db =
     (case conditional_update now_s (r_id row) db of
        (changed, db1) \<Rightarrow>
          (case claim_rows now_s rows db1 of
             (batch, db2) \<Rightarrow> (if changed then row_to_message row # batch else batch, db2)))"

definition spec_claim_attempt ::
  "string \<Rightarrow> int \<Rightarrow> millis \<Rightarrow> database \<Rightarrow> (error + Message list) \<times> database" where
  "spec_claim_attempt queueName limit now =
     executeTransaction (\<lambda>db.
       if \<not> in_int64 limit then Inl SqliteMismatch
       else Inr (claim_rows (to_seconds now)
                   (select_pending queueName limit (to_seconds now) db) db))"

section \<open>Outcome of an attempt\<close>

text \<open>\<^verbatim>\<open>markMessageCompleted\<close>, \<^verbatim>\<open>markMessageFailed\<close> and \<^verbatim>\<open>retryMessage\<close>: one
  \<^verbatim>\<open>UPDATE ... WHERE id = ?\<close> each, in a transaction of its own.\<close>

definition markMessageCompleted ::
  "uuid \<Rightarrow> int \<Rightarrow> millis \<Rightarrow> database \<Rightarrow> (error + unit) \<times> database" where
  "markMessageCompleted messageId processingTime now =
     executeTransaction (\<lambda>db. Inr ((),
       update_where_id messageId
         (\<lambda>r. r\<lparr>r_status := Completed, r_processed_at := Some (to_seconds now),
                r_processing_time := Some processingTime\<rparr>) db))"

definition markMessageFailed ::
  "uuid \<Rightarrow> string \<Rightarrow> millis \<Rightarrow> database \<Rightarrow> (error + unit) \<times> database" where
  "markMessageFailed messageId error_message now =
     executeTransaction (\<lambda>db. Inr ((),
       update_where_id messageId
         (\<lambda>r. r\<lparr>r_status := Failed, r_failed_at := Some (to_seconds now),
                r_error_message := Some error_message\<rparr>) db))"

text \<open>
  \<^verbatim>\<open>SET status = 'pending', retries = retries + 1,
  available_at = strftime('%s','now') + (retries * 60)\<close>: in an SQL \<^verbatim>\<open>UPDATE\<close> every
  right-hand side reads the row as it was before the statement, so \<^verbatim>\<open>retries * 60\<close> is
  computed from the count before the increment.
\<close>

definition retry_assignment :: "seconds \<Rightarrow> message_row \<Rightarrow> message_row" where
  "retry_assignment now_s r =
     r\<lparr>r_status := Pending, r_retries := r_retries r + 1,
       r_available_at := Some (now_s + r_retries r * 60)\<rparr>"

definition retryMessage :: "uuid \<Rightarrow> millis \<Rightarrow> database \<Rightarrow> (error + unit) \<times> database" where
  "retryMessage messageId now =
     executeTransaction (\<lambda>db. Inr ((),
       update_where_id messageId (retry_assignment (to_seconds now)) db))"

text \<open>The backoff policy in the words of the specification: \<open>n\<close> times 60 seconds.\<close>

definition spec_backoff :: "int \<Rightarrow> seconds" where
  "spec_backoff n = n * 60"

text \<open>\<^verbatim>\<open>moveToDeadLetter(message, error)\<close>: insert the copy, delete the original, in one
  transaction. \<open>dlqId\<close> is the \<^verbatim>\<open>uuidv4()\<close> of the copy.\<close>

definition dead_letter_of :: "uuid \<Rightarrow> millis \<Rightarrow> Message \<Rightarrow> string \<Rightarrow> dead_letter_row" where
  "dead_letter_of dlqId now message error_message =
     \<lparr>d_id = dlqId,
      d_original_id = m_id message,
      d_queue_name = m_queueName message,
      d_payload = m_payload message,
      d_error_message = error_message,
      d_retries = m_retries message,
      d_created_at = to_seconds now,
      d_original_created_at = to_seconds (m_createdAt message),
      d_metadata = m_metadata message\<rparr>"

definition moveToDeadLetter ::
  "uuid \<Rightarrow> millis \<Rightarrow> Message \<Rightarrow> string \<Rightarrow> database \<Rightarrow> (error + unit) \<times> database" where
  "moveToDeadLetter dlqId now message error_message =
     executeTransaction (\<lambda>db.
       case insert_dead_letter (dead_letter_of dlqId now message error_message) db of
         Inl e \<Rightarrow> Inl e
       | Inr db' \<Rightarrow> Inr ((), delete_message (m_id message) db'))"

text \<open>
  \<^verbatim>\<open>cleanupExpiredMessages(queueName?)\<close>. With a queue name the statement text is
  \<^verbatim>\<open>DELETE FROM messages WHERE expires_at IS NOT NULL AND expires_at < ... WHERE queue_name = ?\<close>,
  which SQLite refuses to prepare; without one it deletes every expired row and returns
  their number.
\<close>

definition expired :: "seconds \<Rightarrow> message_row \<Rightarrow> bool" where
  "expired now_s r = (case r_expires_at r of None \<Rightarrow> False | Some e \<Rightarrow> e < now_s)"

definition cleanupExpiredMessages ::
  "string option \<Rightarrow> millis \<Rightarrow> database \<Rightarrow> (error + nat) \<times> database" where
  "cleanupExpiredMessages queueName now =
     executeTransaction (\<lambda>db.
       if truthy_string queueName then Inl SqliteSyntaxError
       else Inr (length (filter (expired (to_seconds now)) (messages db)),
                 db\<lparr>messages := filter (\<lambda>r. \<not> expired (to_seconds now) r) (messages db)\<rparr>))"

section \<open>Consumer\<close>

text \<open>
  How \<^verbatim>\<open>Promise.race([handler(message), timeoutPromise])\<close> settles: the handler
  resolved, the handler rejected (or threw) with a message, or the timer fired first.
\<close>

datatype handler_result = Resolved | Rejected string | TimedOut

definition failure_of :: "handler_result \<Rightarrow> string option" where
  "failure_of res =
     (case res of Resolved \<Rightarrow> None | Rejected e \<Rightarrow> Some e
      | TimedOut \<Rightarrow> Some ''Message processing timeout'')"

text \<open>The \<^verbatim>\<open>deadLetterQueue\<close> option of \<^verbatim>\<open>consume\<close>; its default is
  \<^verbatim>\<open>{ enabled: true, maxRetries: 3 }\<close>.\<close>

record deadLetterConfig =
  c_enabled :: bool
  c_maxRetries :: int

definition default_deadLetterQueue :: deadLetterConfig where
  "default_deadLetterQueue = \<lparr>c_enabled = True, c_maxRetries = 3\<rparr>"

text \<open>The store operations the consumer invokes for a message, as values.\<close>

datatype store_call =
    CallMarkCompleted uuid int
  | CallMarkFailed uuid string
  | CallRetry uuid
  | CallMoveToDeadLetter Message string

text \<open>
  \<^verbatim>\<open>processMessage\<close>: on success it calls \<^verbatim>\<open>markMessageCompleted\<close>; in its
  \<^verbatim>\<open>catch\<close> it calls \<^verbatim>\<open>markMessageFailed\<close> and rethrows. The result is the call
  made and the error rethrown, if any. \<open>elapsed\<close> is \<^verbatim>\<open>Date.now() - startTime\<close>.
\<close>

definition processMessage :: "Message \<Rightarrow> handler_result \<Rightarrow> int \<Rightarrow> store_call \<times> string option" where
  "processMessage message res elapsed =
     (case failure_of res of
        None \<Rightarrow> (CallMarkCompleted (m_id message) elapsed, None)
      | Some e \<Rightarrow> (CallMarkFailed (m_id message) e, Some e))"

text \<open>\<^verbatim>\<open>handleMessageError\<close>: the one call it makes.\<close>

definition handleMessageError :: "Message \<Rightarrow> string \<Rightarrow> deadLetterConfig \<Rightarrow> store_call" where
  "handleMessageError message e deadLetterCfg =
     (let maxRetries = min (m_maxRetries message) (c_maxRetries deadLetterCfg)
      in if m_retries message < maxRetries then CallRetry (m_id message)
         else if c_enabled deadLetterCfg then CallMoveToDeadLetter message e
         else CallMarkFailed (m_id message) e)"

text \<open>
  The closure \<^verbatim>\<open>consume\<close> runs for each claimed message:
  \<^verbatim>\<open>try { await processMessage(...) } catch (error) { await handleMessageError(...) }\<close>.
  The result lists the store operations invoked for the attempt, in order.
\<close>

definition attempt_calls ::
  "Message \<Rightarrow> handler_result \<Rightarrow> int \<Rightarrow> deadLetterConfig \<Rightarrow> store_call list" where
  "attempt_calls message res elapsed deadLetterCfg =
     (case processMessage message res elapsed of
        (c, None) \<Rightarrow> [c]
      | (c, Some e) \<Rightarrow> [c, handleMessageError message e deadLetterCfg])"

text \<open>Whether a call is one of \<^verbatim>\<open>retry\<close>, \<^verbatim>\<open>moveToDeadLetter\<close>, \<^verbatim>\<open>markFailed\<close>.\<close>

fun is_failure_call :: "store_call \<Rightarrow> bool" where
  "is_failure_call (CallMarkCompleted _ _) = False"
| "is_failure_call (CallMarkFailed _ _) = True"
| "is_failure_call (CallRetry _) = True"
| "is_failure_call (CallMoveToDeadLetter _ _) = True"

text \<open>The effect of a call on the database; \<open>dlqId\<close> is the identifier
  \<^verbatim>\<open>moveToDeadLetter\<close> would generate.\<close>

fun run_call :: "uuid \<Rightarrow> millis \<Rightarrow> store_call \<Rightarrow> database \<Rightarrow> database" where
  "run_call dlqId now (CallMarkCompleted i t) db = snd (markMessageCompleted i t now db)"
| "run_call dlqId now (CallMarkFailed i e) db = snd (markMessageFailed i e now db)"
| "run_call dlqId now (CallRetry i) db = snd (retryMessage i now db)"
| "run_call dlqId now (CallMoveToDeadLetter message e) db = snd (moveToDeadLetter dlqId now message e db)"

text \<open>
  One run of the poll function \<^verbatim>\<open>processMessages\<close> of an active consumer at clock
  reading \<open>now\<close>: claim a batch, invoke the handler on each message, record each outcome.
  The result is the list of messages the handler was invoked on and the database
  afterwards. \<open>dlqIdFor\<close> gives the identifier generated when a message is dead-lettered;
  the elapsed time recorded for a completed message is taken as 0. The attempts of one
  batch run concurrently in the source; each touches only the rows of its own message, and
  they are run here in batch order.
\<close>

definition processMessages ::
  "string \<Rightarrow> int \<Rightarrow> (Message \<Rightarrow> handler_result) \<Rightarrow> deadLetterConfig \<Rightarrow> (Message \<Rightarrow> uuid)
     \<Rightarrow> millis \<Rightarrow> database \<Rightarrow> Message list \<times> database" where
  "processMessages queueName batchSize handler deadLetterCfg dlqIdFor now db =
     (case fetchMessages queueName batchSize now db of
        (Inl e, db') \<Rightarrow> ([], db')
      | (Inr msgs, db') \<Rightarrow>
          (msgs,
           fold (\<lambda>message. fold (run_call (dlqIdFor message) now)
                               (attempt_calls message (handler message) 0 deadLetterCfg))
                msgs db'))"

section \<open>Concrete databases\<close>

text \<open>A queue \<^verbatim>\<open>jobs\<close> with one dead-lettered message that had used two retries.\<close>

definition dlq_example :: dead_letter_row where
  "dlq_example =
     \<lparr>d_id = ''d1'', d_original_id = ''m1'', d_queue_name = ''jobs'', d_payload = JStr ''x'',
      d_error_message = ''boom'', d_retries = 2, d_created_at = 70, d_original_created_at = 0,
      d_metadata = None\<rparr>"

definition db_dead :: database where
  "db_dead = \<lparr>queues = [''jobs''], messages = [], dead_letter_messages = [dlq_example]\<rparr>"

text \<open>
  The same queue with no message, and with one pending message \<^verbatim>\<open>m1\<close> as
  \<^verbatim>\<open>send(''jobs'', ''x'', { maxRetries: 2 })\<close> at time 0 leaves it.
\<close>

definition db_empty :: database where
  "db_empty = \<lparr>queues = [''jobs''], messages = [], dead_letter_messages = []\<rparr>"

definition row_m1 :: message_row where
  "row_m1 = send_row ''m1'' 0 3 ''jobs'' (JStr ''x'') (no_options\<lparr>o_maxRetries := Some 2\<rparr>)"

definition db_one :: database where
  "db_one = \<lparr>queues = [''jobs''], messages = [row_m1], dead_letter_messages = []\<rparr>"

text \<open>
  Three pending messages sent in the order low (priority 1), high (priority 9), medium
  (priority 5), at seconds 0, 1 and 2.
\<close>

definition row_low :: message_row where
  "row_low = send_row ''m1'' 0 3 ''jobs'' (JStr ''low'') (no_options\<lparr>o_priority := Some 1\<rparr>)"

definition row_high :: message_row where
  "row_high = send_row ''m2'' 1000 3 ''jobs'' (JStr ''high'') (no_options\<lparr>o_priority := Some 9\<rparr>)"

definition row_medium :: message_row where
  "row_medium =
     send_row ''m3'' 2000 3 ''jobs'' (JStr ''medium'') (no_options\<lparr>o_priority := Some 5\<rparr>)"

definition db_priorities :: database where
  "db_priorities = \<lparr>queues = [''jobs''], messages = [row_low, row_high, row_medium],
                     dead_letter_messages = []\<rparr>"

text \<open>A pending message that expired at second 5.\<close>

definition row_expired :: message_row where
  "row_expired =
     send_row ''m1'' 0 3 ''jobs'' (JStr ''x'') (no_options\<lparr>o_expiresAt := Some 5000\<rparr>)"

definition db_expired :: database where
  "db_expired = \<lparr>queues = [''jobs''], messages = [row_expired], dead_letter_messages = []\<rparr>"

text \<open>A message that has used both of its retries.\<close>

definition message_exhausted :: Message where
  "message_exhausted = row_to_message (row_m1\<lparr>r_retries := 2\<rparr>)"

text \<open>A handler that rejects every message, and the options of a producer that
  deduplicates on the key \<^verbatim>\<open>k\<close>.\<close>

definition always_fails :: "Message \<Rightarrow> handler_result" where
  "always_fails message = Rejected ''Always fails''"

definition dedup_options :: SendMessageOptions where
  "dedup_options = no_options\<lparr>o_deduplicationId := Some ''k''\<rparr>"

text \<open>The queue after the first deduplicated \<^verbatim>\<open>send\<close>, at time 0.\<close>

definition db_first_send :: database where
  "db_first_send = snd (send ''m1'' 0 3 ''jobs'' (JStr ''x'') dedup_options db_empty)"

text \<open>
  Four polls of one consumer (batch size 1, default dead-letter options) whose handler
  always fails, on the queue holding \<^verbatim>\<open>m1\<close> (\<^verbatim>\<open>maxRetries = 2\<close>): at 0 ms, 50 ms,
  100 ms and 60 s.
\<close>

definition poll1 :: "Message list \<times> database" where
  "poll1 = processMessages ''jobs'' 1 always_fails default_deadLetterQueue (\<lambda>m. ''d1'') 0 db_one"

definition poll2 :: "Message list \<times> database" where
  "poll2 = processMessages ''jobs'' 1 always_fails default_deadLetterQueue (\<lambda>m. ''d1'') 50
             (snd poll1)"

definition poll3 :: "Message list \<times> database" where
  "poll3 = processMessages ''jobs'' 1 always_fails default_deadLetterQueue (\<lambda>m. ''d1'') 100
             (snd poll2)"

definition poll4 :: "Message list \<times> database" where
  "poll4 = processMessages ''jobs'' 1 always_fails default_deadLetterQueue (\<lambda>m. ''d1'') 60000
             (snd poll3)"

section \<open>The queue as a transition system\<close>

text \<open>
  What a consumer holds between claiming a message and recording its outcome: the message
  object, and whether the handler is still to settle (\<open>Claimed\<close>) or has failed with an
  error that \<^verbatim>\<open>processMessage\<close> has recorded and rethrown (\<open>Failing\<close>).
\<close>

datatype phase = Claimed | Failing string

text \<open>
  The state of one process: the database, the identifiers \<^verbatim>\<open>uuidv4()\<close> has returned
  so far (it never returns one twice), and the messages in flight.
\<close>

record system =
  store :: database
  issued :: "uuid set"
  inflight :: "(Message \<times> phase) set"

text \<open>
  The reachable states. The database starts with its message tables empty. A step is one
  transaction of the public interface (\<^verbatim>\<open>send\<close>, \<^verbatim>\<open>requeueDeadLetterMessage\<close>,
  \<^verbatim>\<open>cleanupExpiredMessages\<close>) or of a consumer: the claim of a batch, the
  \<^verbatim>\<open>markMessageCompleted\<close> or \<^verbatim>\<open>markMessageFailed\<close> of \<^verbatim>\<open>processMessage\<close> for a
  claimed message, and the call \<^verbatim>\<open>handleMessageError\<close> makes for a failed one. Steps of
  different consumers and producers interleave in any order.
\<close>

inductive reachable :: "system \<Rightarrow> bool" where
  start:
    "reachable \<lparr>store = \<lparr>queues = qs, messages = [], dead_letter_messages = []\<rparr>,
                issued = {}, inflight = {}\<rparr>"
| send_step:
    "reachable s \<Longrightarrow> u \<notin> issued s \<Longrightarrow>
     reachable (s\<lparr>store := snd (send u now this_maxRetries queueName payload options (store s)),
                  issued := insert u (issued s)\<rparr>)"
| fetch_step:
    "reachable s \<Longrightarrow> fetchMessages queueName limit now (store s) = (Inr msgs, db') \<Longrightarrow>
     reachable (s\<lparr>store := db', inflight := inflight s \<union> (\<lambda>m. (m, Claimed)) ` set msgs\<rparr>)"
| resolved_step:
    "reachable s \<Longrightarrow> (m, Claimed) \<in> inflight s \<Longrightarrow> failure_of res = None \<Longrightarrow>
     reachable (s\<lparr>store := snd (markMessageCompleted (m_id m) elapsed now (store s)),
                  inflight := inflight s - {(m, Claimed)}\<rparr>)"
| failed_step:
    "reachable s \<Longrightarrow> (m, Claimed) \<in> inflight s \<Longrightarrow> failure_of res = Some e \<Longrightarrow>
     reachable (s\<lparr>store := snd (markMessageFailed (m_id m) e now (store s)),
                  inflight := insert (m, Failing e) (inflight s - {(m, Claimed)})\<rparr>)"
| route_step:
    "reachable s \<Longrightarrow> (m, Failing e) \<in> inflight s \<Longrightarrow> u \<notin> issued s \<Longrightarrow>
     reachable (s\<lparr>store := run_call u now (handleMessageError m e deadLetterCfg) (store s),
                  issued := insert u (issued s),
                  inflight := inflight s - {(m, Failing e)}\<rparr>)"
| requeue_step:
    "reachable s \<Longrightarrow> u \<notin> issued s \<Longrightarrow>
     reachable (s\<lparr>store := snd (requeueDeadLetterMessage u now dlqId (store s)),
                  issued := insert u (issued s)\<rparr>)"
| cleanup_step:
    "reachable s \<Longrightarrow>
     reachable (s\<lparr>store := snd (cleanupExpiredMessages queueName now (store s))\<rparr>)"

text \<open>How many rows of \<^verbatim>\<open>messages\<close> carry an id, and how many dead-letter rows are
  copies of the message of that id.\<close>

definition rows_with_id :: "uuid \<Rightarrow> database \<Rightarrow> nat" where
  "rows_with_id i db = length (filter (\<lambda>r. r_id r = i) (messages db))"

definition dead_letters_of :: "uuid \<Rightarrow> database \<Rightarrow> nat" where
  "dead_letters_of i db = length (filter (\<lambda>d. d_original_id d = i) (dead_letter_messages db))"

text \<open>The invariant of the reachable states, in three parts: the tables, the identifiers
  in use, and the messages in flight.\<close>

definition store_ok :: "database \<Rightarrow> bool" where
  "store_ok db =
     (distinct (map r_id (messages db)) \<and> distinct (map d_original_id (dead_letter_messages db))
      \<and> r_id ` set (messages db) \<inter> d_original_id ` set (dead_letter_messages db) = {})"

definition used_ids :: "database \<Rightarrow> uuid set" where
  "used_ids db = r_id ` set (messages db) \<union> d_original_id ` set (dead_letter_messages db)
             \<union> d_id ` set (dead_letter_messages db)"

definition inflight_ok :: "database \<Rightarrow> (Message \<times> phase) set \<Rightarrow> bool" where
  "inflight_ok db fl =
     ((\<forall>x \<in> fl. m_id (fst x) \<notin> d_original_id ` set (dead_letter_messages db))
      \<and> (\<forall>x \<in> fl. \<forall>r \<in> set (messages db). r_id r = m_id (fst x) \<longrightarrow> r_status r \<noteq> Pending)
      \<and> (\<forall>x \<in> fl. \<forall>y \<in> fl. m_id (fst x) = m_id (fst y) \<longrightarrow> x = y))"

definition consistent :: "database \<Rightarrow> uuid set \<Rightarrow> (Message \<times> phase) set \<Rightarrow> bool" where
  "consistent db I F =
     (store_ok db \<and> used_ids db \<subseteq> I \<and> (m_id \<circ> fst) ` F \<subseteq> I \<and> inflight_ok db F)"

text \<open>A run: \<^verbatim>\<open>m1\<close> is sent, claimed at second 1, and its handler rejects.\<close>

definition sys_start :: system where
  "sys_start = \<lparr>store = \<lparr>queues = [''jobs''], messages = [], dead_letter_messages = []\<rparr>,
                issued = {}, inflight = {}\<rparr>"

definition sys_sent :: system where
  "sys_sent = sys_start
     \<lparr>store := snd (send ''m1'' 0 3 ''jobs'' (JStr ''x'') (no_options\<lparr>o_maxRetries := Some 2\<rparr>)
                   (store sys_start)),
      issued := insert ''m1'' (issued sys_start)\<rparr>"

definition sys_claimed :: system where
  "sys_claimed = sys_sent
     \<lparr>store := snd (fetchMessages ''jobs'' 1 1000 (store sys_sent)),
      inflight := inflight sys_sent \<union> (\<lambda>m. (m, Claimed)) ` set [row_to_message row_m1]\<rparr>"

definition sys_failed :: system where
  "sys_failed = sys_claimed
     \<lparr>store := snd (markMessageFailed (m_id (row_to_message row_m1)) ''boom'' 1000
                   (store sys_claimed)),
      inflight := insert (row_to_message row_m1, Failing ''boom'')
                    (inflight sys_claimed - {(row_to_message row_m1, Claimed)})\<rparr>"

section \<open>Two consumers on one queue\<close>

text \<open>
  \<^verbatim>\<open>consume\<close> is called twice on one queue. Each registration has its own handler and
  options and its own poll loop, and every run of a loop's \<^verbatim>\<open>processMessages\<close> invokes
  the handler once on each message of the batch it has claimed.
\<close>

datatype consumer_id = First | Second

record consumer =
  c_handler :: "Message \<Rightarrow> handler_result"
  c_deadLetterQueue :: deadLetterConfig

text \<open>
  A schedule lists the polls in the order they run: which consumer polls, with what batch
  size, at what clock reading. \<open>run_polls\<close> runs \<^verbatim>\<open>processMessages\<close> for each and logs
  every handler invocation with the consumer that made it. Each poll is run to its end
  before the next begins; how the single transactions of different attempts interleave is
  the subject of \<open>reachable\<close>.
\<close>

fun run_polls ::
  "string \<Rightarrow> consumer \<Rightarrow> consumer \<Rightarrow> (Message \<Rightarrow> uuid) \<Rightarrow> (consumer_id \<times> int \<times> millis) list
     \<Rightarrow> database \<Rightarrow> (consumer_id \<times> Message) list \<times> database" where
  "run_polls queueName first second dlqIdFor [] db = ([], db)"
| "run_polls queueName first second dlqIdFor ((c, batchSize, now) # polls) db =
     (case processMessages queueName batchSize
             (c_handler (case c of First \<Rightarrow> first | Second \<Rightarrow> second))
             (c_deadLetterQueue (case c of First \<Rightarrow> first | Second \<Rightarrow> second))
             dlqIdFor now db of
        (msgs, db1) \<Rightarrow>
          (case run_polls queueName first second dlqIdFor polls db1 of
             (log, db2) \<Rightarrow> (map (Pair c) msgs @ log, db2)))"

text \<open>The handler invocations of one consumer in a log, and the pending rows of a queue.\<close>

definition invocations :: "consumer_id \<Rightarrow> (consumer_id \<times> Message) list \<Rightarrow> nat" where
  "invocations c log = length (filter (\<lambda>x. fst x = c) log)"

definition pending_in :: "string \<Rightarrow> database \<Rightarrow> nat" where
  "pending_in queueName db =
     length (filter (\<lambda>r. r_queue_name r = queueName \<and> r_status r = Pending) (messages db))"

text \<open>Two messages in the queue; a consumer whose handler always resolves and one whose
  handler always rejects, both with the default dead-letter options.\<close>

definition row_m2 :: message_row where
  "row_m2 = send_row ''m2'' 0 3 ''jobs'' (JStr ''y'') no_options"

definition db_two :: database where
  "db_two = \<lparr>queues = [''jobs''], messages = [row_m1, row_m2], dead_letter_messages = []\<rparr>"

definition resolving :: consumer where
  "resolving = \<lparr>c_handler = (\<lambda>m. Resolved), c_deadLetterQueue = default_deadLetterQueue\<rparr>"

definition rejecting :: consumer where
  "rejecting = \<lparr>c_handler = always_fails, c_deadLetterQueue = default_deadLetterQueue\<rparr>"

text \<open>A run of the transition system: the two messages are sent, then each consumer
  claims a batch of one at second 1, so that both attempts are in flight together.\<close>

definition sys_two :: system where
  "sys_two = sys_sent
     \<lparr>store := snd (send ''m2'' 0 3 ''jobs'' (JStr ''y'') no_options (store sys_sent)),
      issued := insert ''m2'' (issued sys_sent)\<rparr>"

definition sys_first_claimed :: system where
  "sys_first_claimed = sys_two
     \<lparr>store := snd (fetchMessages ''jobs'' 1 1000 (store sys_two)),
      inflight := inflight sys_two \<union> (\<lambda>m. (m, Claimed)) ` set [row_to_message row_m1]\<rparr>"

definition sys_both_claimed :: system where
  "sys_both_claimed = sys_first_claimed
     \<lparr>store := snd (fetchMessages ''jobs'' 1 1000 (store sys_first_claimed)),
      inflight := inflight sys_first_claimed
                    \<union> (\<lambda>m. (m, Claimed)) ` set [row_to_message row_m2]\<rparr>"

section \<open>Requeue: theorems\<close>

text \<open>
  Claim C10. For every dead-letter row that exists, \<^verbatim>\<open>requeueDeadLetterMessage\<close>
  (given a new identifier not yet in \<^verbatim>\<open>messages\<close> and a queue still registered, so that
  the insert meets the schema's constraints) commits, appends exactly one row to
  \<^verbatim>\<open>messages\<close>, and that row is pending with priority 5, maxRetries 3, retries 0 and
  \<^verbatim>\<open>created_at = available_at =\<close> the time of the requeue, whatever the dead-letter
  row held; the payload, metadata and queue name are the dead-letter row's, and the
  dead-letter row is gone.
\<close>

theorem requeue_fixed_priority_and_budget:
  assumes "find (\<lambda>d. d_id d = messageId) (dead_letter_messages db) = Some dlq"
    and "newMessageId \<notin> set (map r_id (messages db))"
    and "d_queue_name dlq \<in> set (queues db)"
  shows "\<exists>db' row. requeueDeadLetterMessage newMessageId now messageId db = (Inr (), db')
           \<and> messages db' = messages db @ [row]
           \<and> r_id row = newMessageId \<and> r_status row = Pending
           \<and> r_priority row = 5 \<and> r_max_retries row = 3 \<and> r_retries row = 0
           \<and> r_created_at row = to_seconds now \<and> r_available_at row = Some (to_seconds now)
           \<and> r_queue_name row = d_queue_name dlq \<and> r_payload row = d_payload dlq
           \<and> r_metadata row = d_metadata dlq
           \<and> messageId \<notin> set (map d_id (dead_letter_messages db'))"
  using assms
  by (auto simp: requeueDeadLetterMessage_def executeTransaction_def insert_message_def
      delete_dead_letter_def requeue_row_def)

theorem requeue_fixed_priority_and_budget_witness:
  "find (\<lambda>d. d_id d = ''d1'') (dead_letter_messages db_dead) = Some dlq_example
   \<and> ''m2'' \<notin> set (map r_id (messages db_dead))
   \<and> d_queue_name dlq_example \<in> set (queues db_dead)
   \<and> d_retries dlq_example = 2
   \<and> (\<exists>db' row. requeueDeadLetterMessage ''m2'' 90500 ''d1'' db_dead = (Inr (), db')
         \<and> messages db' = [row] \<and> r_priority row = 5 \<and> r_max_retries row = 3
         \<and> r_retries row = 0 \<and> r_created_at row = 90 \<and> r_available_at row = Some 90
         \<and> dead_letter_messages db' = [])"
proof -
  have h1: "find (\<lambda>d. d_id d = ''d1'') (dead_letter_messages db_dead) = Some dlq_example"
    by (simp add: db_dead_def dlq_example_def)
  have h2: "''m2'' \<notin> set (map r_id (messages db_dead))"
    by (simp add: db_dead_def)
  have h3: "d_queue_name dlq_example \<in> set (queues db_dead)"
    by (simp add: db_dead_def dlq_example_def)
  from requeue_fixed_priority_and_budget [OF h1 h2 h3, of 90500]
  obtain db' row where r: "requeueDeadLetterMessage ''m2'' 90500 ''d1'' db_dead = (Inr (), db')"
    "messages db' = messages db_dead @ [row]" "r_priority row = 5" "r_max_retries row = 3"
    "r_retries row = 0" "r_created_at row = to_seconds 90500"
    "r_available_at row = Some (to_seconds 90500)"
    by blast
  have "dead_letter_messages db' = []"
    using r(1)
    by (auto simp: requeueDeadLetterMessage_def executeTransaction_def insert_message_def
        delete_dead_letter_def db_dead_def dlq_example_def split: if_splits)
  with r h1 h2 h3 show ?thesis
    by (auto simp: to_seconds_def db_dead_def dlq_example_def)
qed

section \<open>Claiming a batch: theorems\<close>

lemma fetchMessages_eq:
  "in_int64 lim \<Longrightarrow>
   fetchMessages q lim now db =
     (Inr (map row_to_message (select_pending q lim (to_seconds now) db)),
      fold (\<lambda>msg. updateStmt_run (to_seconds now) (m_id msg))
        (map row_to_message (select_pending q lim (to_seconds now) db)) db)"
  by (simp add: fetchMessages_def executeTransaction_def Let_def)

lemma fetchMessages_mismatch:
  "\<not> in_int64 lim \<Longrightarrow> fetchMessages q lim now db = (Inl SqliteMismatch, db)"
  by (simp add: fetchMessages_def executeTransaction_def)

lemma fetchMessages_Inr:
  assumes "fetchMessages q lim now db = (Inr msgs, db')"
  shows "in_int64 lim"
proof (rule ccontr)
  assume "\<not> in_int64 lim"
  from fetchMessages_mismatch [OF this, of q now db] assms show False by simp
qed

lemma set_sql_limit: "set (sql_limit n xs) \<subseteq> set xs"
  by (simp add: sql_limit_def set_take_subset)

lemma length_sql_limit:
  "length (sql_limit n xs) = (if n < 0 then length xs else min (nat n) (length xs))"
  by (simp add: sql_limit_def min.commute)

lemma sorted_wrt_sql_limit: "sorted_wrt R xs \<Longrightarrow> sorted_wrt R (sql_limit n xs)"
  by (simp add: sql_limit_def sorted_wrt_take)

lemma mset_sql_limit: "mset (sql_limit n xs) \<subseteq># mset xs"
proof -
  have "mset xs = mset (take (nat n) xs) + mset (drop (nat n) xs)"
    by (metis append_take_drop_id mset_append)
  then have "mset (take (nat n) xs) \<subseteq># mset xs"
    by (metis mset_subset_eq_add_left)
  then show ?thesis by (simp add: sql_limit_def)
qed

lemma sql_limit_left_out:
  assumes "sorted_wrt R xs" "x \<in> set xs" "x \<notin> set (sql_limit n xs)" "b \<in> set (sql_limit n xs)"
  shows "R b x"
proof (cases "n < 0")
  case True
  with assms(2,3) show ?thesis by (simp add: sql_limit_def)
next
  case False
  have "sorted_wrt R (take (nat n) xs @ drop (nat n) xs)" using assms(1) by simp
  then have all: "\<forall>a \<in> set (take (nat n) xs). \<forall>y \<in> set (drop (nat n) xs). R a y"
    by (simp only: sorted_wrt_append) blast
  have "set xs = set (take (nat n) xs) \<union> set (drop (nat n) xs)"
    by (metis append_take_drop_id set_append)
  with assms(2,3) False have "x \<in> set (drop (nat n) xs)" by (auto simp: sql_limit_def)
  moreover from assms(4) False have "b \<in> set (take (nat n) xs)" by (simp add: sql_limit_def)
  ultimately show ?thesis using all by blast
qed

lemma select_pending_rows:
  "r \<in> set (select_pending q lim s db) \<Longrightarrow>
     r \<in> set (messages db) \<and> pending_available q s r"
  using set_sql_limit [of lim] by (fastforce simp: select_pending_def)

lemma select_pending_pending:
  "r \<in> set (select_pending q lim s db) \<Longrightarrow> r \<in> set (messages db) \<and> r_status r = Pending"
  using select_pending_rows [of r q lim s db] by (simp add: pending_available_def)

lemma select_pending_sorted:
  "sorted_wrt (\<lambda>a b. (- r_priority a, r_created_at a) \<le> (- r_priority b, r_created_at b))
     (select_pending q lim s db)"
proof -
  have "sorted (map (\<lambda>r. (- r_priority r, r_created_at r))
          (sort_key (\<lambda>r. (- r_priority r, r_created_at r))
             (filter (pending_available q s) (messages db))))"
    by (rule sorted_sort_key)
  then show ?thesis
    unfolding select_pending_def
    by (intro sorted_wrt_sql_limit) (simp add: sorted_wrt_map)
qed

lemma served_before_rows:
  "(- r_priority a, r_created_at a) \<le> (- r_priority b, r_created_at b) \<Longrightarrow>
     served_before (row_to_message a) (row_to_message b)"
  by (auto simp: served_before_def row_to_message_def less_eq_prod_def)

lemma batch_sorted:
  "sorted_wrt served_before (map row_to_message (select_pending q lim s db))"
  unfolding sorted_wrt_map
  by (rule sorted_wrt_mono_rel [OF _ select_pending_sorted]) (rule served_before_rows)

lemma select_pending_length:
  "length (select_pending q lim s db)
     = (if lim < 0 then length (filter (pending_available q s) (messages db))
        else min (nat lim) (length (filter (pending_available q s) (messages db))))"
  by (simp add: select_pending_def length_sql_limit)

lemma select_pending_mset:
  "mset (select_pending q lim s db) \<subseteq># mset (filter (pending_available q s) (messages db))"
proof -
  have "mset (select_pending q lim s db)
          \<subseteq># mset (sort_key (\<lambda>r. (- r_priority r, r_created_at r))
                    (filter (pending_available q s) (messages db)))"
    unfolding select_pending_def by (rule mset_sql_limit)
  then show ?thesis by simp
qed

lemma select_pending_left_out:
  assumes "r \<in> set (filter (pending_available q s) (messages db))"
    and "r \<notin> set (select_pending q lim s db)" and "b \<in> set (select_pending q lim s db)"
  shows "served_before (row_to_message b) (row_to_message r)"
proof -
  let ?xs = "sort_key (\<lambda>r. (- r_priority r, r_created_at r))
               (filter (pending_available q s) (messages db))"
  have "sorted (map (\<lambda>r. (- r_priority r, r_created_at r)) ?xs)"
    by (rule sorted_sort_key)
  then have srt: "sorted_wrt (\<lambda>a b. (- r_priority a, r_created_at a) \<le> (- r_priority b, r_created_at b)) ?xs"
    by (simp add: sorted_wrt_map)
  have mem: "r \<in> set ?xs" using assms(1) by simp
  from sql_limit_left_out [OF srt mem] assms(2,3)
  have "(- r_priority b, r_created_at b) \<le> (- r_priority r, r_created_at r)"
    by (simp add: select_pending_def)
  then show ?thesis by (rule served_before_rows)
qed

lemma mark_processing_id [simp]: "r_id (mark_processing s r) = r_id r"
  by (simp add: mark_processing_def)

lemma m_id_row_to_message [simp]: "m_id (row_to_message r) = r_id r"
  by (simp add: row_to_message_def)

lemma messages_updateStmt_run:
  "messages (updateStmt_run s i db)
     = map (\<lambda>r. if r_id r = i then mark_processing s r else r) (messages db)"
  by (simp add: updateStmt_run_def update_where_id_def)

lemma ids_updateStmt_run: "map r_id (messages (updateStmt_run s i db)) = map r_id (messages db)"
  by (simp add: messages_updateStmt_run o_def)

lemma distinct_same_id:
  "distinct (map f xs) \<Longrightarrow> x \<in> set xs \<Longrightarrow> y \<in> set xs \<Longrightarrow> f x = f y \<Longrightarrow> x = y"
  by (meson distinct_map inj_onD)

lemma conditional_update_pending:
  assumes d: "distinct (map r_id (messages db))"
    and m: "row \<in> set (messages db)" and p: "r_status row = Pending"
  shows "conditional_update s (r_id row) db = (True, updateStmt_run s (r_id row) db)"
proof -
  have "row \<in> set (filter (\<lambda>r. r_id r = r_id row \<and> r_status r = Pending) (messages db))"
    using m p by simp
  then have ne: "filter (\<lambda>r. r_id r = r_id row \<and> r_status r = Pending) (messages db) \<noteq> []"
    by (metis empty_iff empty_set)
  have "map (\<lambda>r. if r_id r = r_id row \<and> r_status r = Pending then mark_processing s r else r)
          (messages db)
        = map (\<lambda>r. if r_id r = r_id row then mark_processing s r else r) (messages db)"
  proof (rule map_cong [OF refl])
    fix r assume r: "r \<in> set (messages db)"
    show "(if r_id r = r_id row \<and> r_status r = Pending then mark_processing s r else r)
            = (if r_id r = r_id row then mark_processing s r else r)"
    proof (cases "r_id r = r_id row")
      case True
      with distinct_same_id [OF d r m] have "r = row" by simp
      with p True show ?thesis by simp
    next
      case False
      then show ?thesis by simp
    qed
  qed
  with ne show ?thesis
    by (simp add: conditional_update_def updateStmt_run_def update_where_id_def)
qed

lemma claim_rows_blind:
  assumes "distinct (map r_id (messages db))" and "distinct (map r_id rows)"
    and "\<forall>r \<in> set rows. r \<in> set (messages db) \<and> r_status r = Pending"
  shows "claim_rows s rows db
           = (map row_to_message rows,
              fold (\<lambda>msg. updateStmt_run s (m_id msg)) (map row_to_message rows) db)"
  using assms
proof (induction rows arbitrary: db)
  case Nil
  then show ?case by simp
next
  case (Cons row rows)
  let ?db1 = "updateStmt_run s (r_id row) db"
  have cu: "conditional_update s (r_id row) db = (True, ?db1)"
    using Cons.prems by (intro conditional_update_pending) simp_all
  have d1: "distinct (map r_id (messages ?db1))"
    using Cons.prems(1) by (simp only: ids_updateStmt_run)
  have d2: "distinct (map r_id rows)" using Cons.prems(2) by simp
  have keep: "\<forall>r \<in> set rows. r \<in> set (messages ?db1) \<and> r_status r = Pending"
  proof
    fix r assume r: "r \<in> set rows"
    then have ne: "r_id r \<noteq> r_id row" using Cons.prems(2) by (auto simp: image_iff)
    from r Cons.prems(3) have rm: "r \<in> set (messages db)" and rp: "r_status r = Pending"
      by simp_all
    have "(\<lambda>r. if r_id r = r_id row then mark_processing s r else r) r \<in>
            (\<lambda>r. if r_id r = r_id row then mark_processing s r else r) ` set (messages db)"
      using rm by (rule imageI)
    with ne have "r \<in> set (messages ?db1)" by (simp add: messages_updateStmt_run)
    with rp show "r \<in> set (messages ?db1) \<and> r_status r = Pending" by simp
  qed
  from Cons.IH [OF d1 d2 keep] cu show ?case by simp
qed

lemma distinct_select_pending:
  assumes "distinct (map r_id (messages db))"
  shows "distinct (map r_id (select_pending q lim s db))"
proof -
  have "distinct (map r_id (filter (pending_available q s) (messages db)))"
    using assms by (rule distinct_map_filter)
  then have "distinct (map r_id (sort_key (\<lambda>r. (- r_priority r, r_created_at r))
                 (filter (pending_available q s) (messages db))))"
    by (simp add: distinct_map inj_on_def)
  then show ?thesis
    by (simp add: select_pending_def sql_limit_def take_map [symmetric] distinct_take)
qed

lemma messages_fold_updateStmt:
  "messages (fold (\<lambda>msg. updateStmt_run s (m_id msg)) msgs db)
     = map (\<lambda>r. if r_id r \<in> m_id ` set msgs then mark_processing s r else r) (messages db)"
proof (induction msgs arbitrary: db)
  case Nil
  then show ?case by simp
next
  case (Cons m msgs)
  have "messages (fold (\<lambda>msg. updateStmt_run s (m_id msg)) (m # msgs) db)
          = messages (fold (\<lambda>msg. updateStmt_run s (m_id msg)) msgs (updateStmt_run s (m_id m) db))"
    by simp
  also have "\<dots> = map (\<lambda>r. if r_id r \<in> m_id ` set msgs then mark_processing s r else r)
                     (messages (updateStmt_run s (m_id m) db))"
    by (rule Cons.IH)
  also have "\<dots> = map (\<lambda>r. if r_id r \<in> m_id ` set (m # msgs) then mark_processing s r else r)
                     (messages db)"
    by (auto simp: messages_updateStmt_run mark_processing_def)
  finally show ?case .
qed

lemma others_fold_updateStmt:
  "queues (fold (\<lambda>msg. updateStmt_run s (m_id msg)) msgs db) = queues db
   \<and> dead_letter_messages (fold (\<lambda>msg. updateStmt_run s (m_id msg)) msgs db)
       = dead_letter_messages db"
  by (induction msgs arbitrary: db) (simp_all add: updateStmt_run_def update_where_id_def)

lemma row_m1_eval:
  "row_m1 = \<lparr>r_id = ''m1'', r_queue_name = ''jobs'', r_payload = JStr ''x'', r_status = Pending,
     r_priority = 5, r_retries = 0, r_max_retries = 2, r_created_at = 0,
     r_available_at = Some 0,
     r_processed_at = None, r_failed_at = None, r_error_message = None,
     r_processing_time = None, r_metadata = None, r_deduplication_id = None,
     r_expires_at = None\<rparr>"
  by (simp add: row_m1_def send_row_def no_options_def to_seconds_def truthy_string_def
      date_seconds_def)

lemma select_pending_db_one: "select_pending ''jobs'' 1 s db_one = (if 0 \<le> s then [row_m1] else [])"
  by (simp add: select_pending_def sql_limit_def db_one_def row_m1_eval pending_available_def
      available_def)

lemma fetch_db_one:
  "fetchMessages ''jobs'' 1 1000 db_one
     = (Inr [row_to_message row_m1],
        \<lparr>queues = [''jobs''], messages = [mark_processing 1 row_m1], dead_letter_messages = []\<rparr>)"
  by (simp add: fetchMessages_eq in_int64_def select_pending_db_one to_seconds_def
      updateStmt_run_def update_where_id_def) (simp add: db_one_def)

text \<open>The conditional update of the specification leaves a row that is no longer
  pending alone and reports that it changed nothing.\<close>

lemma conditional_update_not_pending:
  assumes "\<forall>r \<in> set (messages db). r_id r = i \<longrightarrow> r_status r \<noteq> Pending"
  shows "conditional_update s i db = (False, db)"
proof -
  have f: "filter (\<lambda>r. r_id r = i \<and> r_status r = Pending) (messages db) = []"
    using assms by (auto simp: filter_empty_conv)
  have "map (\<lambda>r. if r_id r = i \<and> r_status r = Pending then mark_processing s r else r)
          (messages db) = map (\<lambda>r. r) (messages db)"
    using assms by (intro map_cong [OF refl]) auto
  with f show ?thesis by (simp add: conditional_update_def)
qed

text \<open>
  Claim C1. The primary key keeps the ids of \<^verbatim>\<open>messages\<close> distinct. On every such
  database and for every queue, limit and clock reading, \<^verbatim>\<open>fetchMessages\<close> returns the
  same result and leaves the same database as the protocol of the specification: selection
  and updates in one transaction, each update conditioned on the row still being pending,
  and only the rows whose update succeeded returned. When the \<^verbatim>\<open>SELECT\<close> accepts the
  limit the call returns a batch, not an error; every message of the batch is a row that
  was pending before the call, and every row of a returned id is \<^verbatim>\<open>processing\<close>
  after it. The only error is the datatype mismatch of the \<^verbatim>\<open>SELECT\<close> itself on a
  limit that is not a 64-bit integer, raised before any row is selected, with the
  database unchanged.
\<close>

theorem fetchMessages_is_compare_and_swap:
  assumes "distinct (map r_id (messages db))"
  shows "fetchMessages queueName limit now db = spec_claim_attempt queueName limit now db
     \<and> (in_int64 limit \<longrightarrow>
          (\<exists>batch db'. fetchMessages queueName limit now db = (Inr batch, db')
             \<and> (\<forall>m \<in> set batch. \<exists>r \<in> set (messages db). r_id r = m_id m \<and> r_status r = Pending)
             \<and> (\<forall>r \<in> set (messages db'). r_id r \<in> m_id ` set batch \<longrightarrow> r_status r = Processing)))
     \<and> (\<not> in_int64 limit \<longrightarrow> fetchMessages queueName limit now db = (Inl SqliteMismatch, db))"
proof (cases "in_int64 limit")
  case False
  then show ?thesis
    by (simp add: fetchMessages_mismatch spec_claim_attempt_def executeTransaction_def)
next
  case True
  let ?rows = "select_pending queueName limit (to_seconds now) db"
  let ?batch = "map row_to_message ?rows"
  let ?db' = "fold (\<lambda>msg. updateStmt_run (to_seconds now) (m_id msg)) ?batch db"
  have f: "fetchMessages queueName limit now db = (Inr ?batch, ?db')"
    by (rule fetchMessages_eq [OF True])
  have pend: "\<forall>r \<in> set ?rows. r \<in> set (messages db) \<and> r_status r = Pending"
    using select_pending_pending by blast
  have "claim_rows (to_seconds now) ?rows db = (?batch, ?db')"
    by (rule claim_rows_blind [OF assms distinct_select_pending [OF assms] pend])
  then have eq: "spec_claim_attempt queueName limit now db = (Inr ?batch, ?db')"
    using True by (simp add: spec_claim_attempt_def executeTransaction_def)
  have a: "\<forall>m \<in> set ?batch. \<exists>r \<in> set (messages db). r_id r = m_id m \<and> r_status r = Pending"
    using pend by auto
  have b: "\<forall>r \<in> set (messages ?db'). r_id r \<in> m_id ` set ?batch \<longrightarrow> r_status r = Processing"
    unfolding messages_fold_updateStmt by (auto simp: mark_processing_def)
  from f eq a b True show ?thesis by auto
qed

theorem fetchMessages_is_compare_and_swap_witness:
  "distinct (map r_id (messages db_priorities))
   \<and> fetchMessages ''jobs'' 2 5000 db_priorities = spec_claim_attempt ''jobs'' 2 5000 db_priorities
   \<and> fst (spec_claim_attempt ''jobs'' 2 5000 db_priorities)
       = Inr [row_to_message row_high, row_to_message row_medium]
   \<and> map r_status (messages (snd (fetchMessages ''jobs'' 2 5000 db_priorities)))
       = [Pending, Processing, Processing]"
proof -
  have d: "distinct (map r_id (messages db_priorities))"
    by code_simp
  have a: "fst (spec_claim_attempt ''jobs'' 2 5000 db_priorities)
       = Inr [row_to_message row_high, row_to_message row_medium]"
    by code_simp
  have b: "map r_status (messages (snd (fetchMessages ''jobs'' 2 5000 db_priorities)))
       = [Pending, Processing, Processing]"
    by code_simp
  from fetchMessages_is_compare_and_swap [OF d, of "''jobs''" 2 5000] d a b
  show ?thesis by simp
qed

text \<open>
  Claim C4, as the code has it. For a limit the \<^verbatim>\<open>SELECT\<close> accepts, a claim attempt
  returns a batch built from rows of \<^verbatim>\<open>messages\<close>. Every such row belongs to the queue
  asked for and was pending and available (\<^verbatim>\<open>available_at <= now\<close>) when selected;
  expiry is not looked at. The rows are taken from the candidates (the pending, available
  rows of the queue) without repetition. Their number is the smaller of \<^verbatim>\<open>batchSize\<close>
  and the number of candidates when \<^verbatim>\<open>batchSize\<close> is not negative, and the number of
  candidates when it is negative. The batch is ordered by priority descending, then creation
  time ascending, and every candidate left out comes after every returned message in that
  order. For any other limit the call throws and changes nothing.
\<close>

theorem fetch_returns_head_of_ordered_candidates:
  "(in_int64 limit \<longrightarrow>
      (\<exists>rows db'. fetchMessages queueName limit now db = (Inr (map row_to_message rows), db')
         \<and> (\<forall>r \<in> set rows. r \<in> set (messages db) \<and> r_queue_name r = queueName
               \<and> r_status r = Pending \<and> available (to_seconds now) r
               \<and> m_availableAt (row_to_message r) \<le> now)
         \<and> mset rows \<subseteq># mset (filter (pending_available queueName (to_seconds now)) (messages db))
         \<and> length rows
             = (if limit < 0
                then length (filter (pending_available queueName (to_seconds now)) (messages db))
                else min (nat limit)
                       (length (filter (pending_available queueName (to_seconds now)) (messages db))))
         \<and> sorted_wrt served_before (map row_to_message rows)
         \<and> (\<forall>r \<in> set (filter (pending_available queueName (to_seconds now)) (messages db)).
               r \<notin> set rows \<longrightarrow>
                 (\<forall>b \<in> set rows. served_before (row_to_message b) (row_to_message r)))))
   \<and> (\<not> in_int64 limit \<longrightarrow> fetchMessages queueName limit now db = (Inl SqliteMismatch, db))"
proof (cases "in_int64 limit")
  case False
  then show ?thesis by (simp add: fetchMessages_mismatch)
next
  case True
  let ?s = "to_seconds now"
  let ?rows = "select_pending queueName limit ?s db"
  let ?cands = "filter (pending_available queueName ?s) (messages db)"
  let ?db' = "fold (\<lambda>msg. updateStmt_run ?s (m_id msg)) (map row_to_message ?rows) db"
  have f: "fetchMessages queueName limit now db = (Inr (map row_to_message ?rows), ?db')"
    by (rule fetchMessages_eq [OF True])
  have a: "\<forall>r \<in> set ?rows. r \<in> set (messages db) \<and> r_queue_name r = queueName
               \<and> r_status r = Pending \<and> available ?s r
               \<and> m_availableAt (row_to_message r) \<le> now"
  proof
    fix r assume "r \<in> set ?rows"
    from select_pending_rows [OF this]
    have m: "r \<in> set (messages db)" and p: "pending_available queueName ?s r" by simp_all
    from p have av: "available ?s r" by (simp add: pending_available_def)
    then obtain t where t: "r_available_at r = Some t" "t \<le> now div 1000"
      by (auto simp: available_def to_seconds_def split: option.splits)
    then have "t * 1000 \<le> now" by linarith
    with t have "m_availableAt (row_to_message r) \<le> now" by (simp add: row_to_message_def)
    with m p av show "r \<in> set (messages db) \<and> r_queue_name r = queueName
               \<and> r_status r = Pending \<and> available ?s r
               \<and> m_availableAt (row_to_message r) \<le> now"
      by (simp add: pending_available_def)
  qed
  have b: "mset ?rows \<subseteq># mset ?cands" by (rule select_pending_mset)
  have c: "length ?rows = (if limit < 0 then length ?cands else min (nat limit) (length ?cands))"
    by (rule select_pending_length)
  have d: "sorted_wrt served_before (map row_to_message ?rows)" by (rule batch_sorted)
  have e: "\<forall>r \<in> set ?cands. r \<notin> set ?rows \<longrightarrow>
             (\<forall>b \<in> set ?rows. served_before (row_to_message b) (row_to_message r))"
    using select_pending_left_out by blast
  from True f a b c d e show ?thesis by blast
qed

theorem fetch_returns_head_of_ordered_candidates_witness:
  "in_int64 2
   \<and> fst (fetchMessages ''jobs'' 2 5000 db_priorities)
       = Inr [row_to_message row_high, row_to_message row_medium]
   \<and> map r_id (filter (pending_available ''jobs'' (to_seconds 5000)) (messages db_priorities))
       = [''m1'', ''m2'', ''m3'']
   \<and> (\<exists>rows db'. fetchMessages ''jobs'' 2 5000 db_priorities = (Inr (map row_to_message rows), db')
         \<and> length rows = 2
         \<and> sorted_wrt served_before (map row_to_message rows)
         \<and> row_low \<notin> set rows
         \<and> (\<forall>b \<in> set rows. served_before (row_to_message b) (row_to_message row_low)))"
proof -
  have i: "in_int64 2" by (simp add: in_int64_def)
  have a: "fst (fetchMessages ''jobs'' 2 5000 db_priorities)
       = Inr [row_to_message row_high, row_to_message row_medium]"
    by code_simp
  have c: "map r_id (filter (pending_available ''jobs'' (to_seconds 5000)) (messages db_priorities))
       = [''m1'', ''m2'', ''m3'']"
    by code_simp
  have l: "length (filter (pending_available ''jobs'' (to_seconds 5000)) (messages db_priorities)) = 3"
    using arg_cong [OF c, of length] by simp
  have low: "row_low \<in> set (filter (pending_available ''jobs'' (to_seconds 5000))
                (messages db_priorities))"
    by code_simp
  have ne: "row_to_message row_low \<noteq> row_to_message row_high
            \<and> row_to_message row_low \<noteq> row_to_message row_medium"
    by code_simp
  from fetch_returns_head_of_ordered_candidates [of 2 "''jobs''" 5000 db_priorities] i
  obtain rows db' where r:
    "fetchMessages ''jobs'' 2 5000 db_priorities = (Inr (map row_to_message rows), db')"
    "length rows = (if (2::int) < 0
        then length (filter (pending_available ''jobs'' (to_seconds 5000)) (messages db_priorities))
        else min (nat 2)
          (length (filter (pending_available ''jobs'' (to_seconds 5000)) (messages db_priorities))))"
    "sorted_wrt served_before (map row_to_message rows)"
    "\<forall>r \<in> set (filter (pending_available ''jobs'' (to_seconds 5000)) (messages db_priorities)).
               r \<notin> set rows \<longrightarrow>
                 (\<forall>b \<in> set rows. served_before (row_to_message b) (row_to_message r))"
    by blast
  from r(2) l have len: "length rows = 2" by simp
  from r(1) a have "map row_to_message rows = [row_to_message row_high, row_to_message row_medium]"
    by simp
  then have "row_to_message ` set rows = {row_to_message row_high, row_to_message row_medium}"
    by (metis list.set_map list.simps(15) empty_set)
  with ne have nin: "row_low \<notin> set rows" by blast
  with r(4) low have "\<forall>b \<in> set rows. served_before (row_to_message b) (row_to_message row_low)"
    by blast
  with i a c r(1) r(3) len nin show ?thesis by blast
qed

text \<open>
  Claim C4 as stated fails in two ways. At second 10 the batch holds the message that
  expired at second 5, which the claimability predicate of the specification excludes.
  And with \<^verbatim>\<open>batchSize = -1\<close> the batch holds all three pending messages, more than
  \<^verbatim>\<open>batchSize\<close>.
\<close>

theorem fetch_returns_expired_or_more_than_batchSize:
  "fst (fetchMessages ''jobs'' 1 10000 db_expired) = Inr [row_to_message row_expired]
   \<and> r_expires_at row_expired = Some 5
   \<and> \<not> spec_claimable (to_seconds 10000) row_expired
   \<and> fst (fetchMessages ''jobs'' (- 1) 5000 db_priorities)
       = Inr [row_to_message row_high, row_to_message row_medium, row_to_message row_low]
   \<and> \<not> int (length [row_to_message row_high, row_to_message row_medium, row_to_message row_low])
         \<le> - 1"
  by code_simp

section \<open>Retry: theorems\<close>

text \<open>
  Claim C7, as the code has it. \<^verbatim>\<open>retryMessage\<close> commits; every row of the given id
  becomes pending, its retry count grows by exactly 1, and its \<^verbatim>\<open>available_at\<close>
  becomes the current second plus the linear backoff of the count the row had before the
  increment. All other rows, and the other tables, are unchanged.
\<close>

theorem retry_backs_off_by_previous_count:
  "\<exists>db'. retryMessage messageId now db = (Inr (), db')
      \<and> queues db' = queues db \<and> dead_letter_messages db' = dead_letter_messages db
      \<and> length (messages db') = length (messages db)
      \<and> (\<forall>k < length (messages db).
           if r_id (messages db ! k) = messageId
           then r_status (messages db' ! k) = Pending
              \<and> r_retries (messages db' ! k) = r_retries (messages db ! k) + 1
              \<and> r_available_at (messages db' ! k)
                  = Some (to_seconds now + spec_backoff (r_retries (messages db ! k)))
           else messages db' ! k = messages db ! k)"
  by (simp add: retryMessage_def executeTransaction_def update_where_id_def
      retry_assignment_def spec_backoff_def)

theorem retry_backs_off_by_previous_count_witness:
  "\<exists>db'. retryMessage ''m1'' 100000 (db_one\<lparr>messages := [row_m1\<lparr>r_retries := 1\<rparr>]\<rparr>)
            = (Inr (), db')
      \<and> r_status (messages db' ! 0) = Pending
      \<and> r_retries (messages db' ! 0) = 2
      \<and> r_available_at (messages db' ! 0) = Some 160"
  using retry_backs_off_by_previous_count
    [of "''m1''" 100000 "db_one\<lparr>messages := [row_m1\<lparr>r_retries := 1\<rparr>]\<rparr>"]
  by (simp add: row_m1_eval to_seconds_def spec_backoff_def) blast

text \<open>
  Claim C7 as stated fails on the first retry: retried at second 100 with no retry behind
  it, \<^verbatim>\<open>m1\<close> has retry count 1 and is available at second 100, at once, and not
  at second 160 as the backoff of the incremented count would have it.
\<close>

theorem first_retry_is_immediate:
  "map r_retries (messages db_one) = [0]
   \<and> map r_retries (messages (snd (retryMessage ''m1'' 100000 db_one))) = [1]
   \<and> map r_available_at (messages (snd (retryMessage ''m1'' 100000 db_one))) = [Some 100]
   \<and> to_seconds 100000 + spec_backoff 1 = 160"
  by (simp add: retryMessage_def executeTransaction_def update_where_id_def
      retry_assignment_def spec_backoff_def db_one_def row_m1_eval to_seconds_def)

section \<open>Failure routing: theorems\<close>

text \<open>
  Claim C5, as the code has it. For every failed attempt (rejection, thrown error or
  timeout) two store operations are invoked, in this order: \<^verbatim>\<open>markFailed\<close>, by
  \<^verbatim>\<open>processMessage\<close>, and then the one operation \<^verbatim>\<open>handleMessageError\<close> chooses:
  \<^verbatim>\<open>retry\<close> if \<^verbatim>\<open>message.retries < min(message.maxRetries, deadLetterConfig.maxRetries)\<close>,
  else \<^verbatim>\<open>moveToDeadLetter\<close> if dead-lettering is enabled, else \<^verbatim>\<open>markFailed\<close>.
\<close>

theorem failed_attempt_marks_failed_then_routes:
  assumes "failure_of res = Some e"
  shows "attempt_calls message res elapsed deadLetterCfg
           = [CallMarkFailed (m_id message) e, handleMessageError message e deadLetterCfg]
         \<and> handleMessageError message e deadLetterCfg
           = (if m_retries message < min (m_maxRetries message) (c_maxRetries deadLetterCfg)
              then CallRetry (m_id message)
              else if c_enabled deadLetterCfg then CallMoveToDeadLetter message e
              else CallMarkFailed (m_id message) e)
         \<and> length (filter is_failure_call (attempt_calls message res elapsed deadLetterCfg)) = 2"
  using assms
  by (simp add: attempt_calls_def processMessage_def handleMessageError_def Let_def)

theorem failed_attempt_marks_failed_then_routes_witness:
  "failure_of TimedOut = Some ''Message processing timeout''
   \<and> attempt_calls message_exhausted TimedOut 30000 default_deadLetterQueue
       = [CallMarkFailed ''m1'' ''Message processing timeout'',
          CallMoveToDeadLetter message_exhausted ''Message processing timeout'']"
proof -
  have h: "failure_of TimedOut = Some ''Message processing timeout''"
    by (simp add: failure_of_def)
  have "m_id message_exhausted = ''m1''" "m_retries message_exhausted = 2"
    "m_maxRetries message_exhausted = 2"
    by (simp_all add: message_exhausted_def row_to_message_def row_m1_eval)
  with h failed_attempt_marks_failed_then_routes
         [OF h, of message_exhausted 30000 default_deadLetterQueue]
  show ?thesis
    by (simp add: default_deadLetterQueue_def)
qed

text \<open>
  Claim C5 as stated fails: for one rejected attempt on a message with retries left, the
  operations invoked are \<^verbatim>\<open>markFailed\<close> and \<^verbatim>\<open>retry\<close>, two of the three and not
  exactly one.
\<close>

theorem rejected_attempt_invokes_two_operations:
  "filter is_failure_call
     (attempt_calls (row_to_message row_m1) (Rejected ''boom'') 12 default_deadLetterQueue)
     = [CallMarkFailed ''m1'' ''boom'', CallRetry ''m1'']"
  by (simp add: attempt_calls_def processMessage_def handleMessageError_def failure_of_def
      default_deadLetterQueue_def row_to_message_def row_m1_eval)

section \<open>Producer: evaluation\<close>

text \<open>
  Claim C3 on the code. Two sends with the same queue and deduplication key, one second
  apart: the second call inserts its row, the deduplication query then returns that newest
  row, so nothing is detected; the call returns a new identifier and the table holds two
  rows for the key.
\<close>

theorem second_send_a_second_later_inserts_duplicate:
  "fst (send ''m1'' 0 3 ''jobs'' (JStr ''x'') dedup_options db_empty) = Inr ''m1''
   \<and> map r_id (messages db_first_send) = [''m1'']
   \<and> fst (send ''m2'' 1000 3 ''jobs'' (JStr ''x'') dedup_options db_first_send) = Inr ''m2''
   \<and> map r_id (messages (snd (send ''m2'' 1000 3 ''jobs'' (JStr ''x'') dedup_options db_first_send)))
       = [''m1'', ''m2'']
   \<and> map r_deduplication_id
        (messages (snd (send ''m2'' 1000 3 ''jobs'' (JStr ''x'') dedup_options db_first_send)))
       = [Some ''k'', Some ''k'']"
  by code_simp

text \<open>
  Within the same second the two rows tie on \<^verbatim>\<open>created_at\<close>; when the query returns
  the older row, as the stable sort of the model does, the second call throws and is
  rolled back. It does not return the existing identifier.
\<close>

lemma second_send_in_the_same_second_throws:
  "send ''m2'' 999 3 ''jobs'' (JStr ''x'') dedup_options db_first_send
     = (Inl (DuplicateMessage ''k''), db_first_send)"
  by code_simp

text \<open>
  Claim C8 on the code. \<^verbatim>\<open>send\<close> validates nothing: a null payload is inserted like
  any other, and the call returns the new identifier.
\<close>

theorem send_null_payload_inserts_row:
  "send ''m1'' 0 3 ''jobs'' JNull no_options db_empty
     = (Inr ''m1'',
        \<lparr>queues = [''jobs''],
         messages = [send_row ''m1'' 0 3 ''jobs'' JNull no_options],
         dead_letter_messages = []\<rparr>)
   \<and> r_payload (send_row ''m1'' 0 3 ''jobs'' JNull no_options) = JNull"
  by code_simp

text \<open>
  An empty queue name is inserted as well when table \<^verbatim>\<open>queues\<close> has a row of that
  name; otherwise the \<^verbatim>\<open>INSERT\<close> itself fails on the foreign key.
\<close>

lemma send_empty_queue_name:
  "fst (send ''m1'' 0 3 [] (JStr ''x'') no_options (db_empty\<lparr>queues := [[]]\<rparr>)) = Inr ''m1''
   \<and> map r_queue_name
        (messages (snd (send ''m1'' 0 3 [] (JStr ''x'') no_options (db_empty\<lparr>queues := [[]]\<rparr>))))
       = [[]]
   \<and> send ''m1'' 0 3 [] (JStr ''x'') no_options db_empty
       = (Inl SqliteConstraintForeignKey, db_empty)"
  by code_simp

section \<open>Retry budget: evaluation\<close>

text \<open>
  Claim C6 on the code. The always-failing handler is invoked at the first and the second
  poll; after these two invocations \<^verbatim>\<open>m1\<close> is still a pending row of
  \<^verbatim>\<open>messages\<close> with retry count 2, available at second 60, and the dead-letter table
  is empty. The third poll finds nothing. Only the poll at 60 s invokes the handler a third
  time, and that attempt moves the message to the dead-letter table.
\<close>

theorem always_failing_handler_is_invoked_three_times:
  "map (length \<circ> fst) [poll1, poll2, poll3, poll4] = [1, 1, 0, 1]
   \<and> map r_id (messages (snd poll2)) = [''m1'']
   \<and> map r_status (messages (snd poll2)) = [Pending]
   \<and> map r_retries (messages (snd poll2)) = [2]
   \<and> map r_available_at (messages (snd poll2)) = [Some 60]
   \<and> dead_letter_messages (snd poll2) = []
   \<and> messages (snd poll4) = []
   \<and> map d_original_id (dead_letter_messages (snd poll4)) = [''m1'']"
  by code_simp

section \<open>One home per message: theorems\<close>

lemma insert_message_Inr:
  "insert_message row db = Inr db' \<Longrightarrow>
     db' = db\<lparr>messages := messages db @ [row]\<rparr> \<and> r_id row \<notin> r_id ` set (messages db)"
  by (auto simp: insert_message_def split: if_splits)

lemma insert_dead_letter_Inr:
  "insert_dead_letter row db = Inr db' \<Longrightarrow>
     db' = db\<lparr>dead_letter_messages := dead_letter_messages db @ [row]\<rparr>"
  by (auto simp: insert_dead_letter_def split: if_splits)

lemma send_row_facts [simp]:
  "r_id (send_row u now mr q p opts) = u" "r_status (send_row u now mr q p opts) = Pending"
  by (simp_all add: send_row_def)

lemma requeue_row_facts [simp]:
  "r_id (requeue_row u now d) = u" "r_status (requeue_row u now d) = Pending"
  by (simp_all add: requeue_row_def)

lemma dead_letter_of_facts [simp]:
  "d_id (dead_letter_of u now m e) = u" "d_original_id (dead_letter_of u now m e) = m_id m"
  by (simp_all add: dead_letter_of_def)

lemma send_effect:
  "snd (send u now mr q p opts db) = db
   \<or> (\<exists>row. snd (send u now mr q p opts db) = db\<lparr>messages := messages db @ [row]\<rparr>
         \<and> r_id row = u \<and> r_status row = Pending \<and> u \<notin> r_id ` set (messages db))"
proof (cases "insert_message (send_row u now mr q p opts) db")
  case (Inl e)
  then show ?thesis by (simp add: send_def executeTransaction_def)
next
  case (Inr db')
  from insert_message_Inr [OF Inr]
  have db': "db' = db\<lparr>messages := messages db @ [send_row u now mr q p opts]\<rparr>"
    and fresh: "u \<notin> r_id ` set (messages db)"
    by simp_all
  have "snd (send u now mr q p opts db) = db \<or> snd (send u now mr q p opts db) = db'"
    using Inr by (simp add: send_def executeTransaction_def split: option.splits)
  with db' fresh show ?thesis
    using send_row_facts by blast
qed

lemma requeue_effect:
  "snd (requeueDeadLetterMessage u now i db) = db
   \<or> (\<exists>row. snd (requeueDeadLetterMessage u now i db)
              = db\<lparr>messages := messages db @ [row],
                   dead_letter_messages := filter (\<lambda>d. d_id d \<noteq> i) (dead_letter_messages db)\<rparr>
         \<and> r_id row = u \<and> r_status row = Pending \<and> u \<notin> r_id ` set (messages db))"
proof (cases "find (\<lambda>d. d_id d = i) (dead_letter_messages db)")
  case None
  then show ?thesis by (simp add: requeueDeadLetterMessage_def executeTransaction_def)
next
  case (Some dlq)
  show ?thesis
  proof (cases "insert_message (requeue_row u now dlq) db")
    case (Inl e)
    with Some show ?thesis by (simp add: requeueDeadLetterMessage_def executeTransaction_def)
  next
    case (Inr db')
    from insert_message_Inr [OF Inr]
    have db': "db' = db\<lparr>messages := messages db @ [requeue_row u now dlq]\<rparr>"
      and fresh: "u \<notin> r_id ` set (messages db)"
      by simp_all
    have "snd (requeueDeadLetterMessage u now i db) = delete_dead_letter i db'"
      using Some Inr by (simp add: requeueDeadLetterMessage_def executeTransaction_def)
    then have "snd (requeueDeadLetterMessage u now i db)
              = db\<lparr>messages := messages db @ [requeue_row u now dlq],
                   dead_letter_messages := filter (\<lambda>d. d_id d \<noteq> i) (dead_letter_messages db)\<rparr>"
      by (simp add: db' delete_dead_letter_def)
    with fresh show ?thesis
      using requeue_row_facts by blast
  qed
qed

lemma moveToDeadLetter_effect:
  "(\<exists>err. moveToDeadLetter u now m e db = (Inl err, db))
   \<or> (\<exists>d. moveToDeadLetter u now m e db
              = (Inr (), db\<lparr>dead_letter_messages := dead_letter_messages db @ [d],
                   messages := filter (\<lambda>r. r_id r \<noteq> m_id m) (messages db)\<rparr>)
         \<and> d_id d = u \<and> d_original_id d = m_id m)"
proof (cases "insert_dead_letter (dead_letter_of u now m e) db")
  case (Inl err)
  then show ?thesis by (simp add: moveToDeadLetter_def executeTransaction_def)
next
  case (Inr db')
  from insert_dead_letter_Inr [OF Inr]
  have db': "db' = db\<lparr>dead_letter_messages := dead_letter_messages db @ [dead_letter_of u now m e]\<rparr>" .
  have "moveToDeadLetter u now m e db = (Inr (), delete_message (m_id m) db')"
    using Inr by (simp add: moveToDeadLetter_def executeTransaction_def)
  then have "moveToDeadLetter u now m e db
              = (Inr (), db\<lparr>dead_letter_messages := dead_letter_messages db @ [dead_letter_of u now m e],
                   messages := filter (\<lambda>r. r_id r \<noteq> m_id m) (messages db)\<rparr>)"
    by (simp add: db' delete_message_def)
  then show ?thesis
    using dead_letter_of_facts by blast
qed

lemma cleanup_effect:
  "\<exists>P. snd (cleanupExpiredMessages qn now db) = db\<lparr>messages := filter P (messages db)\<rparr>"
proof (cases "truthy_string qn")
  case True
  then have "snd (cleanupExpiredMessages qn now db) = db\<lparr>messages := filter (\<lambda>r. True) (messages db)\<rparr>"
    by (simp add: cleanupExpiredMessages_def executeTransaction_def)
  then show ?thesis by blast
next
  case False
  then have "snd (cleanupExpiredMessages qn now db)
               = db\<lparr>messages := filter (\<lambda>r. \<not> expired (to_seconds now) r) (messages db)\<rparr>"
    by (simp add: cleanupExpiredMessages_def executeTransaction_def)
  then show ?thesis by blast
qed

lemma completed_effect:
  "snd (markMessageCompleted i t now db)
     = update_where_id i (\<lambda>r. r\<lparr>r_status := Completed, r_processed_at := Some (to_seconds now),
                r_processing_time := Some t\<rparr>) db"
  by (simp add: markMessageCompleted_def executeTransaction_def)

lemma failed_effect:
  "snd (markMessageFailed i e now db)
     = update_where_id i (\<lambda>r. r\<lparr>r_status := Failed, r_failed_at := Some (to_seconds now),
                r_error_message := Some e\<rparr>) db"
  by (simp add: markMessageFailed_def executeTransaction_def)

lemma retry_effect:
  "snd (retryMessage i now db) = update_where_id i (retry_assignment (to_seconds now)) db"
  by (simp add: retryMessage_def executeTransaction_def)

lemma store_ok_update:
  assumes "store_ok db" "\<And>r. r_id (f r) = r_id r"
  shows "store_ok (update_where_id i f db)"
proof -
  have "map r_id (messages (update_where_id i f db)) = map r_id (messages db)"
    using assms(2) by (simp add: update_where_id_def)
  moreover have "dead_letter_messages (update_where_id i f db) = dead_letter_messages db"
    by (simp add: update_where_id_def)
  ultimately show ?thesis
    using assms(1) unfolding store_ok_def by (metis set_map)
qed

lemma used_ids_update:
  assumes "\<And>r. r_id (f r) = r_id r"
  shows "used_ids (update_where_id i f db) = used_ids db"
proof -
  have "map r_id (messages (update_where_id i f db)) = map r_id (messages db)"
    using assms by (simp add: update_where_id_def)
  then have "r_id ` set (messages (update_where_id i f db)) = r_id ` set (messages db)"
    by (metis set_map)
  then show ?thesis
    by (simp add: used_ids_def update_where_id_def)
qed

lemma store_ok_append:
  assumes "store_ok db" "r_id row \<notin> used_ids db"
  shows "store_ok (db\<lparr>messages := messages db @ [row]\<rparr>)"
  using assms by (auto simp: store_ok_def used_ids_def)

lemma store_ok_filter:
  assumes "store_ok db"
  shows "store_ok (db\<lparr>messages := filter P (messages db)\<rparr>)"
  using assms by (auto simp: store_ok_def distinct_map_filter)

lemma store_ok_filter_dlq:
  assumes "store_ok db"
  shows "store_ok (db\<lparr>dead_letter_messages := filter P (dead_letter_messages db)\<rparr>)"
  using assms by (auto simp: store_ok_def distinct_map_filter)

lemma store_ok_move:
  assumes "store_ok db" "i \<notin> d_original_id ` set (dead_letter_messages db)" "d_original_id d = i"
  shows "store_ok (db\<lparr>dead_letter_messages := dead_letter_messages db @ [d],
                   messages := filter (\<lambda>r. r_id r \<noteq> i) (messages db)\<rparr>)"
  using assms by (auto simp: store_ok_def distinct_map_filter)


lemma consistent_append:
  assumes "consistent db I F" "r_id row = u" "u \<notin> I"
  shows "consistent (db\<lparr>messages := messages db @ [row]\<rparr>) (insert u I) F"
proof -
  from assms have ok: "store_ok db" and us: "used_ids db \<subseteq> I" and fl: "(m_id \<circ> fst) ` F \<subseteq> I"
    and fo: "inflight_ok db F"
    by (simp_all add: consistent_def)
  have "r_id row \<notin> used_ids db" using us assms(2,3) by blast
  then have 1: "store_ok (db\<lparr>messages := messages db @ [row]\<rparr>)"
    by (rule store_ok_append [OF ok])
  have 2: "used_ids (db\<lparr>messages := messages db @ [row]\<rparr>) \<subseteq> insert u I"
    using us assms(2) by (auto simp: used_ids_def)
  have 3: "(m_id \<circ> fst) ` F \<subseteq> insert u I" using fl by blast
  have "\<forall>x \<in> F. m_id (fst x) \<noteq> u" using fl assms(3) by auto
  then have 4: "inflight_ok (db\<lparr>messages := messages db @ [row]\<rparr>) F"
    using fo assms(2) unfolding inflight_ok_def by auto
  from 1 2 3 4 show ?thesis by (simp add: consistent_def)
qed

lemma consistent_issue: "consistent db I F \<Longrightarrow> consistent db (insert u I) F"
  by (auto simp: consistent_def)

lemma consistent_filter:
  assumes "consistent db I F"
  shows "consistent (db\<lparr>messages := filter P (messages db)\<rparr>) I F"
proof -
  from assms have ok: "store_ok db" and us: "used_ids db \<subseteq> I" and fl: "(m_id \<circ> fst) ` F \<subseteq> I"
    and fo: "inflight_ok db F"
    by (simp_all add: consistent_def)
  have 1: "store_ok (db\<lparr>messages := filter P (messages db)\<rparr>)"
    by (rule store_ok_filter [OF ok])
  have 2: "used_ids (db\<lparr>messages := filter P (messages db)\<rparr>) \<subseteq> I"
    using us by (auto simp: used_ids_def)
  have 4: "inflight_ok (db\<lparr>messages := filter P (messages db)\<rparr>) F"
    using fo unfolding inflight_ok_def by auto
  from 1 2 fl 4 show ?thesis by (simp add: consistent_def)
qed

lemma consistent_filter_dlq:
  assumes "consistent db I F"
  shows "consistent (db\<lparr>dead_letter_messages := filter P (dead_letter_messages db)\<rparr>) I F"
proof -
  from assms have ok: "store_ok db" and us: "used_ids db \<subseteq> I" and fl: "(m_id \<circ> fst) ` F \<subseteq> I"
    and fo: "inflight_ok db F"
    by (simp_all add: consistent_def)
  have 1: "store_ok (db\<lparr>dead_letter_messages := filter P (dead_letter_messages db)\<rparr>)"
    by (rule store_ok_filter_dlq [OF ok])
  have 2: "used_ids (db\<lparr>dead_letter_messages := filter P (dead_letter_messages db)\<rparr>) \<subseteq> I"
    using us by (auto simp: used_ids_def)
  have 4: "inflight_ok (db\<lparr>dead_letter_messages := filter P (dead_letter_messages db)\<rparr>) F"
    using fo unfolding inflight_ok_def by auto
  from 1 2 fl 4 show ?thesis by (simp add: consistent_def)
qed

lemma inflight_ok_subset: "inflight_ok db F \<Longrightarrow> G \<subseteq> F \<Longrightarrow> inflight_ok db G"
  unfolding inflight_ok_def by blast

lemma consistent_subset: "consistent db I F \<Longrightarrow> G \<subseteq> F \<Longrightarrow> consistent db I G"
  unfolding consistent_def using inflight_ok_subset by blast

text \<open>An update that leaves the ids alone and never makes a row of another id pending.\<close>

lemma consistent_update:
  assumes "consistent db I F" "\<And>r. r_id (f r) = r_id r"
    and "\<forall>x \<in> F. m_id (fst x) = i \<longrightarrow> (\<forall>r. r_status (f r) \<noteq> Pending)"
  shows "consistent (update_where_id i f db) I F"
proof -
  from assms have ok: "store_ok db" and us: "used_ids db \<subseteq> I" and fl: "(m_id \<circ> fst) ` F \<subseteq> I"
    and fo: "inflight_ok db F"
    by (simp_all add: consistent_def)
  have 1: "store_ok (update_where_id i f db)"
    by (rule store_ok_update [OF ok assms(2)])
  have 2: "used_ids (update_where_id i f db) \<subseteq> I"
    using us by (simp add: used_ids_update [OF assms(2)])
  have dl: "dead_letter_messages (update_where_id i f db) = dead_letter_messages db"
    by (simp add: update_where_id_def)
  have st: "\<forall>x \<in> F. \<forall>r' \<in> set (messages (update_where_id i f db)).
              r_id r' = m_id (fst x) \<longrightarrow> r_status r' \<noteq> Pending"
  proof (intro ballI impI)
    fix x r' assume x: "x \<in> F" and r': "r' \<in> set (messages (update_where_id i f db))"
      and id: "r_id r' = m_id (fst x)"
    from r' obtain r where r: "r \<in> set (messages db)" "r' = (if r_id r = i then f r else r)"
      by (auto simp: update_where_id_def)
    show "r_status r' \<noteq> Pending"
    proof (cases "r_id r = i")
      case True
      with r id assms(2) have "m_id (fst x) = i" by simp
      with assms(3) x have "r_status (f r) \<noteq> Pending" by blast
      with True r show ?thesis by simp
    next
      case False
      with r id have "r' = r" "r_id r = m_id (fst x)" by simp_all
      with fo x r(1) show ?thesis unfolding inflight_ok_def by blast
    qed
  qed
  have 4: "inflight_ok (update_where_id i f db) F"
    using fo st unfolding inflight_ok_def dl by blast
  from 1 2 fl 4 show ?thesis by (simp add: consistent_def)
qed


lemma flight_unique:
  assumes "consistent db I F" "x \<in> F" "y \<in> F" "m_id (fst x) = m_id (fst y)"
  shows "x = y"
  using assms unfolding consistent_def inflight_ok_def by blast

lemma consistent_send:
  assumes "consistent db I F" "u \<notin> I"
  shows "consistent (snd (send u now mr q p opts db)) (insert u I) F"
  using send_effect [of u now mr q p opts db] consistent_issue [OF assms(1)] consistent_append [OF assms(1) _ assms(2)]
  by auto

lemma consistent_requeue:
  assumes "consistent db I F" "u \<notin> I"
  shows "consistent (snd (requeueDeadLetterMessage u now i db)) (insert u I) F"
proof -
  consider "snd (requeueDeadLetterMessage u now i db) = db"
    | row where "snd (requeueDeadLetterMessage u now i db)
              = db\<lparr>messages := messages db @ [row],
                   dead_letter_messages := filter (\<lambda>d. d_id d \<noteq> i) (dead_letter_messages db)\<rparr>"
            "r_id row = u"
    using requeue_effect [of u now i db] by blast
  then show ?thesis
  proof cases
    case 1
    then show ?thesis using consistent_issue [OF assms(1)] by simp
  next
    case 2
    let ?d = "db\<lparr>dead_letter_messages := filter (\<lambda>d. d_id d \<noteq> i) (dead_letter_messages db)\<rparr>"
    have d: "consistent ?d I F" by (rule consistent_filter_dlq [OF assms(1)])
    have eq: "snd (requeueDeadLetterMessage u now i db) = ?d\<lparr>messages := messages ?d @ [row]\<rparr>"
      using 2(1) by simp
    show ?thesis
      unfolding eq by (rule consistent_append [OF d 2(2) assms(2)])
  qed
qed

lemma consistent_cleanup:
  assumes "consistent db I F"
  shows "consistent (snd (cleanupExpiredMessages qn now db)) I F"
  using cleanup_effect [of qn now db] consistent_filter [OF assms] by auto

lemma consistent_resolved:
  assumes "consistent db I F"
  shows "consistent (snd (markMessageCompleted i t now db)) I (F - G)"
proof -
  have "consistent (snd (markMessageCompleted i t now db)) I F"
    unfolding completed_effect by (rule consistent_update [OF assms]) simp_all
  then show ?thesis by (rule consistent_subset) blast
qed

lemma consistent_markFailed:
  assumes "consistent db I F"
  shows "consistent (snd (markMessageFailed i e now db)) I F"
  unfolding failed_effect by (rule consistent_update [OF assms]) simp_all

lemma consistent_rephase:
  assumes "consistent db I F" "(m, ph) \<in> F"
  shows "consistent db I (insert (m, ph') (F - {(m, ph)}))"
proof -
  from assms have ok: "store_ok db" and us: "used_ids db \<subseteq> I" and fl: "(m_id \<circ> fst) ` F \<subseteq> I"
    and fo: "inflight_ok db F"
    by (simp_all add: consistent_def)
  have 3: "(m_id \<circ> fst) ` insert (m, ph') (F - {(m, ph)}) \<subseteq> I"
    using fl assms(2) by force
  have others: "\<forall>y \<in> F - {(m, ph)}. m_id (fst y) \<noteq> m_id m"
    using flight_unique [OF assms(1) _ assms(2)] by fastforce
  have a: "m_id m \<notin> d_original_id ` set (dead_letter_messages db)"
    using fo assms(2) unfolding inflight_ok_def by force
  have b: "\<forall>r \<in> set (messages db). r_id r = m_id m \<longrightarrow> r_status r \<noteq> Pending"
    using fo assms(2) unfolding inflight_ok_def by force
  have c: "inflight_ok db (F - {(m, ph)})"
    by (rule inflight_ok_subset [OF fo]) blast
  have 4: "inflight_ok db (insert (m, ph') (F - {(m, ph)}))"
    unfolding inflight_ok_def
  proof (intro conjI ballI impI)
    fix x assume "x \<in> insert (m, ph') (F - {(m, ph)})"
    then show "m_id (fst x) \<notin> d_original_id ` set (dead_letter_messages db)"
      using a c unfolding inflight_ok_def by auto
  next
    fix x r assume "x \<in> insert (m, ph') (F - {(m, ph)})" "r \<in> set (messages db)"
      "r_id r = m_id (fst x)"
    then show "r_status r \<noteq> Pending"
      using b c unfolding inflight_ok_def by auto
  next
    fix x y assume x: "x \<in> insert (m, ph') (F - {(m, ph)})"
      and y: "y \<in> insert (m, ph') (F - {(m, ph)})" and id: "m_id (fst x) = m_id (fst y)"
    show "x = y"
    proof (cases "x = (m, ph')")
      case True
      with y id others show ?thesis by auto
    next
      case False
      with x have xg: "x \<in> F - {(m, ph)}" by simp
      with others id have "y \<noteq> (m, ph')" by auto
      with y have "y \<in> F - {(m, ph)}" by simp
      with xg id c show ?thesis unfolding inflight_ok_def by blast
    qed
  qed
  from ok us 3 4 show ?thesis by (simp add: consistent_def)
qed

lemma consistent_failed:
  assumes "consistent db I F" "(m, Claimed) \<in> F"
  shows "consistent (snd (markMessageFailed (m_id m) e now db)) I
           (insert (m, Failing e) (F - {(m, Claimed)}))"
  by (rule consistent_rephase [OF consistent_markFailed [OF assms(1)] assms(2)])

lemma retry_assignment_id [simp]: "r_id (retry_assignment s r) = r_id r"
  by (simp add: retry_assignment_def)

lemma consistent_retry:
  assumes "consistent db I F" "(m, ph) \<in> F"
  shows "consistent (snd (retryMessage (m_id m) now db)) I (F - {(m, ph)})"
proof -
  have g: "consistent db I (F - {(m, ph)})"
    by (rule consistent_subset [OF assms(1)]) blast
  have others: "\<forall>y \<in> F - {(m, ph)}. m_id (fst y) \<noteq> m_id m"
    using flight_unique [OF assms(1) _ assms(2)] by fastforce
  show ?thesis
    unfolding retry_effect
    by (rule consistent_update [OF g]) (use others in auto)
qed

lemma consistent_move:
  assumes "consistent db I F" "(m, ph) \<in> F" "u \<notin> I"
  shows "consistent (snd (moveToDeadLetter u now m e db)) (insert u I) (F - {(m, ph)})"
proof -
  from assms have ok: "store_ok db" and us: "used_ids db \<subseteq> I" and fl: "(m_id \<circ> fst) ` F \<subseteq> I"
    and fo: "inflight_ok db F"
    by (simp_all add: consistent_def)
  have g: "consistent db I (F - {(m, ph)})"
    by (rule consistent_subset [OF assms(1)]) blast
  have "snd (moveToDeadLetter u now m e db) = db
        \<or> (\<exists>d. snd (moveToDeadLetter u now m e db)
                 = db\<lparr>dead_letter_messages := dead_letter_messages db @ [d],
                      messages := filter (\<lambda>r. r_id r \<noteq> m_id m) (messages db)\<rparr>
               \<and> d_id d = u \<and> d_original_id d = m_id m)"
  proof -
    from moveToDeadLetter_effect [of u now m e db] show ?thesis
    proof (elim disjE exE conjE)
      fix err assume "moveToDeadLetter u now m e db = (Inl err, db)"
      then show ?thesis by simp
    next
      fix d assume "moveToDeadLetter u now m e db
              = (Inr (), db\<lparr>dead_letter_messages := dead_letter_messages db @ [d],
                   messages := filter (\<lambda>r. r_id r \<noteq> m_id m) (messages db)\<rparr>)"
        and d: "d_id d = u" "d_original_id d = m_id m"
      then have "snd (moveToDeadLetter u now m e db)
                 = db\<lparr>dead_letter_messages := dead_letter_messages db @ [d],
                      messages := filter (\<lambda>r. r_id r \<noteq> m_id m) (messages db)\<rparr>"
        by simp
      with d show ?thesis by blast
    qed
  qed
  then consider "snd (moveToDeadLetter u now m e db) = db"
    | d where "snd (moveToDeadLetter u now m e db)
                 = db\<lparr>dead_letter_messages := dead_letter_messages db @ [d],
                      messages := filter (\<lambda>r. r_id r \<noteq> m_id m) (messages db)\<rparr>"
              "d_id d = u" "d_original_id d = m_id m"
    by blast
  then show ?thesis
  proof cases
    case 1
    then show ?thesis using consistent_issue [OF g] by simp
  next
    case 2
    let ?db' = "db\<lparr>dead_letter_messages := dead_letter_messages db @ [d],
                      messages := filter (\<lambda>r. r_id r \<noteq> m_id m) (messages db)\<rparr>"
    have a: "m_id m \<notin> d_original_id ` set (dead_letter_messages db)"
      using fo assms(2) unfolding inflight_ok_def by force
    have others: "\<forall>y \<in> F - {(m, ph)}. m_id (fst y) \<noteq> m_id m"
      using flight_unique [OF assms(1) _ assms(2)] by fastforce
    have mI: "m_id m \<in> I" using fl assms(2) by force
    have 1: "store_ok ?db'"
      by (rule store_ok_move [OF ok a 2(3)])
    have u2: "used_ids ?db' \<subseteq> insert u I"
      using us 2(2,3) mI by (auto simp: used_ids_def)
    have 3: "(m_id \<circ> fst) ` (F - {(m, ph)}) \<subseteq> insert u I"
      using fl by auto
    have 4: "inflight_ok ?db' (F - {(m, ph)})"
      using fo others 2(3) unfolding inflight_ok_def by auto
    from 1 u2 3 4 have "consistent ?db' (insert u I) (F - {(m, ph)})" by (simp add: consistent_def)
    with 2(1) show ?thesis by simp
  qed
qed

lemma consistent_route:
  assumes "consistent db I F" "(m, ph) \<in> F" "u \<notin> I"
  shows "consistent (run_call u now (handleMessageError m e cfg) db) (insert u I) (F - {(m, ph)})"
proof -
  have "handleMessageError m e cfg = CallRetry (m_id m)
        \<or> handleMessageError m e cfg = CallMoveToDeadLetter m e
        \<or> handleMessageError m e cfg = CallMarkFailed (m_id m) e"
    by (simp add: handleMessageError_def Let_def)
  then consider "handleMessageError m e cfg = CallRetry (m_id m)"
    | "handleMessageError m e cfg = CallMoveToDeadLetter m e"
    | "handleMessageError m e cfg = CallMarkFailed (m_id m) e"
    by blast
  then show ?thesis
  proof cases
    case 1
    then show ?thesis using consistent_issue [OF consistent_retry [OF assms(1,2)]] by simp
  next
    case 2
    then show ?thesis using consistent_move [OF assms] by simp
  next
    case 3
    have "consistent (snd (markMessageFailed (m_id m) e now db)) I (F - {(m, ph)})"
      by (rule consistent_subset [OF consistent_markFailed [OF assms(1)]]) blast
    with 3 show ?thesis using consistent_issue by simp
  qed
qed


lemma distinct_map_same_key:
  "distinct (map f xs) \<Longrightarrow> x \<in> set xs \<Longrightarrow> y \<in> set xs \<Longrightarrow> f x = f y \<Longrightarrow> x = y"
  by (meson distinct_map inj_onD)

lemma fetch_shape:
  assumes "fetchMessages q lim now db = (Inr msgs, db')"
  shows "\<exists>rows. msgs = map row_to_message rows
           \<and> (\<forall>r \<in> set rows. r \<in> set (messages db) \<and> r_status r = Pending)
           \<and> messages db' = map (\<lambda>r. if r_id r \<in> r_id ` set rows
                                       then mark_processing (to_seconds now) r else r) (messages db)
           \<and> dead_letter_messages db' = dead_letter_messages db"
proof -
  let ?s = "to_seconds now"
  let ?rows = "select_pending q lim ?s db"
  let ?db' = "fold (\<lambda>msg. updateStmt_run ?s (m_id msg)) (map row_to_message ?rows) db"
  have "in_int64 lim" using assms by (rule fetchMessages_Inr)
  from fetchMessages_eq [OF this, of q now db] assms
  have msgs: "msgs = map row_to_message ?rows" and db': "db' = ?db'"
    by simp_all
  have img: "m_id ` set (map row_to_message ?rows) = r_id ` set ?rows"
    by (simp add: image_image)
  have ms: "messages db' = map (\<lambda>r. if r_id r \<in> r_id ` set ?rows
                                    then mark_processing ?s r else r) (messages db)"
    unfolding db' messages_fold_updateStmt img ..
  have dl: "dead_letter_messages db' = dead_letter_messages db"
    unfolding db' using others_fold_updateStmt by blast
  have rows: "\<forall>r \<in> set ?rows. r \<in> set (messages db) \<and> r_status r = Pending"
    using select_pending_pending by blast
  from msgs rows ms dl show ?thesis by blast
qed

lemma consistent_claim:
  assumes inv: "consistent db I F"
    and rows: "\<forall>r \<in> set rows. r \<in> set (messages db) \<and> r_status r = Pending"
    and ms: "messages db' = map (\<lambda>r. if r_id r \<in> r_id ` set rows then mark_processing s r else r)
                              (messages db)"
    and dl: "dead_letter_messages db' = dead_letter_messages db"
  shows "consistent db' I (F \<union> (\<lambda>m. (m, Claimed)) ` set (map row_to_message rows))"
proof -
  let ?R = "r_id ` set rows"
  let ?N = "(\<lambda>m. (m, Claimed)) ` set (map row_to_message rows)"
  from inv have ok: "store_ok db" and us: "used_ids db \<subseteq> I" and fl: "(m_id \<circ> fst) ` F \<subseteq> I"
    and fo: "inflight_ok db F"
    by (simp_all add: consistent_def)
  have ids: "map r_id (messages db') = map r_id (messages db)"
    unfolding ms by (simp add: comp_def)
  then have idset: "r_id ` set (messages db') = r_id ` set (messages db)"
    by (metis set_map)
  have 1: "store_ok db'"
    using ok unfolding store_ok_def ids idset dl .
  have 2: "used_ids db' \<subseteq> I"
    using us unfolding used_ids_def idset dl .
  have new: "\<exists>r \<in> set rows. x = (row_to_message r, Claimed)" if "x \<in> ?N" for x
    using that by auto
  have new_ids: "m_id (fst x) \<in> ?R" if "x \<in> ?N" for x
    using new [OF that] by auto
  have R_sub: "?R \<subseteq> r_id ` set (messages db)"
    using rows by blast
  have R_I: "?R \<subseteq> I"
    using R_sub us unfolding used_ids_def by blast
  have 3: "(m_id \<circ> fst) ` (F \<union> ?N) \<subseteq> I"
  proof
    fix i assume "i \<in> (m_id \<circ> fst) ` (F \<union> ?N)"
    then obtain x where x: "x \<in> F \<union> ?N" "i = m_id (fst x)" by auto
    show "i \<in> I"
    proof (cases "x \<in> F")
      case True
      with fl x(2) show ?thesis by auto
    next
      case False
      with x(1) have "x \<in> ?N" by blast
      from new_ids [OF this] R_I x(2) show ?thesis by blast
    qed
  qed
  have old_not_selected: "m_id (fst x) \<notin> ?R" if x: "x \<in> F" for x
  proof
    assume "m_id (fst x) \<in> ?R"
    then obtain r where "r \<in> set rows" "r_id r = m_id (fst x)" by auto
    with rows have "r \<in> set (messages db)" "r_status r = Pending" "r_id r = m_id (fst x)"
      by auto
    with fo x show False unfolding inflight_ok_def by blast
  qed
  have a: "m_id (fst x) \<notin> d_original_id ` set (dead_letter_messages db')" if "x \<in> F \<union> ?N" for x
  proof (cases "x \<in> F")
    case True
    with fo show ?thesis unfolding inflight_ok_def dl by blast
  next
    case False
    with that have "x \<in> ?N" by blast
    from new_ids [OF this] R_sub ok show ?thesis unfolding store_ok_def dl by blast
  qed
  have b: "r_status r' \<noteq> Pending"
    if x: "x \<in> F \<union> ?N" and r': "r' \<in> set (messages db')" and id: "r_id r' = m_id (fst x)"
    for x r'
  proof -
    from r' obtain r where r: "r \<in> set (messages db)"
      "r' = (if r_id r \<in> ?R then mark_processing s r else r)"
      unfolding ms by auto
    show ?thesis
    proof (cases "r_id r \<in> ?R")
      case True
      with r show ?thesis by (simp add: mark_processing_def)
    next
      case False
      with r id have same: "r' = r" "r_id r = m_id (fst x)" by simp_all
      have "x \<in> F"
      proof (rule ccontr)
        assume "x \<notin> F"
        with x have "x \<in> ?N" by blast
        from new_ids [OF this] same False show False by simp
      qed
      with fo r(1) same show ?thesis unfolding inflight_ok_def by blast
    qed
  qed
  have new_eq: "x = y" if "x \<in> ?N" "y \<in> ?N" "m_id (fst x) = m_id (fst y)" for x y
  proof -
    from new [OF that(1)] obtain rx where rx: "rx \<in> set rows" "x = (row_to_message rx, Claimed)"
      by blast
    from new [OF that(2)] obtain ry where ry: "ry \<in> set rows" "y = (row_to_message ry, Claimed)"
      by blast
    from that(3) rx(2) ry(2) have e: "r_id rx = r_id ry" by simp
    have d: "distinct (map r_id (messages db))" using ok by (simp add: store_ok_def)
    have "rx \<in> set (messages db)" "ry \<in> set (messages db)" using rx(1) ry(1) rows by auto
    from distinct_map_same_key [OF d this e] have "rx = ry" .
    with rx(2) ry(2) show ?thesis by simp
  qed
  have c: "x = y" if x: "x \<in> F \<union> ?N" and y: "y \<in> F \<union> ?N" and id: "m_id (fst x) = m_id (fst y)"
    for x y
  proof (cases "x \<in> F")
    case xF: True
    show ?thesis
    proof (cases "y \<in> F")
      case True
      with xF id fo show ?thesis unfolding inflight_ok_def by blast
    next
      case False
      with y have "y \<in> ?N" by blast
      from new_ids [OF this] id old_not_selected [OF xF] show ?thesis by simp
    qed
  next
    case xN: False
    with x have xn: "x \<in> ?N" by blast
    show ?thesis
    proof (cases "y \<in> F")
      case True
      from new_ids [OF xn] id old_not_selected [OF True] show ?thesis by simp
    next
      case False
      with y have "y \<in> ?N" by blast
      from new_eq [OF xn this id] show ?thesis .
    qed
  qed
  have 4: "inflight_ok db' (F \<union> ?N)"
    unfolding inflight_ok_def using a b c by blast
  from 1 2 3 4 show ?thesis by (simp add: consistent_def)
qed

lemma consistent_fetch:
  assumes "consistent db I F" "fetchMessages q lim now db = (Inr msgs, db')"
  shows "consistent db' I (F \<union> (\<lambda>m. (m, Claimed)) ` set msgs)"
proof -
  from fetch_shape [OF assms(2)] obtain rows where
    "msgs = map row_to_message rows"
    "\<forall>r \<in> set rows. r \<in> set (messages db) \<and> r_status r = Pending"
    "messages db' = map (\<lambda>r. if r_id r \<in> r_id ` set rows
                              then mark_processing (to_seconds now) r else r) (messages db)"
    "dead_letter_messages db' = dead_letter_messages db"
    by blast
  with consistent_claim [OF assms(1), of rows db' "to_seconds now"] show ?thesis by simp
qed

lemma reachable_consistent: "reachable s \<Longrightarrow> consistent (store s) (issued s) (inflight s)"
proof (induction rule: reachable.induct)
  case (start qs)
  show ?case by (simp add: consistent_def store_ok_def used_ids_def inflight_ok_def)
next
  case (send_step s u now this_maxRetries queueName payload options)
  then show ?case by (simp add: consistent_send)
next
  case (fetch_step s queueName limit now msgs db')
  then show ?case by (simp add: consistent_fetch)
next
  case (resolved_step s m res elapsed now)
  then show ?case by (simp add: consistent_resolved)
next
  case (failed_step s m res e now)
  then show ?case by (simp add: consistent_failed)
next
  case (route_step s m e u now deadLetterCfg)
  then show ?case by (simp add: consistent_route)
next
  case (requeue_step s u now dlqId)
  then show ?case by (simp add: consistent_requeue)
next
  case (cleanup_step s queueName now)
  then show ?case by (simp add: consistent_cleanup)
qed

lemma distinct_map_filter_le_1:
  "distinct (map f xs) \<Longrightarrow> length (filter (\<lambda>x. f x = i) xs) \<le> 1"
proof (induction xs)
  case Nil
  then show ?case by simp
next
  case (Cons x xs)
  show ?case
  proof (cases "f x = i")
    case True
    with Cons.prems have "i \<notin> f ` set xs" by auto
    then have "filter (\<lambda>x. f x = i) xs = []" by (auto simp: filter_empty_conv)
    with True show ?thesis by simp
  next
    case False
    with Cons show ?thesis by simp
  qed
qed

lemma filter_key_absent: "i \<notin> f ` set xs \<Longrightarrow> filter (\<lambda>x. f x = i) xs = []"
  by (auto simp: filter_empty_conv)

lemma store_ok_one_home:
  assumes "store_ok db"
  shows "rows_with_id i db + dead_letters_of i db \<le> 1"
proof (cases "i \<in> r_id ` set (messages db)")
  case True
  with assms have "i \<notin> d_original_id ` set (dead_letter_messages db)"
    unfolding store_ok_def by blast
  then have "dead_letters_of i db = 0"
    by (simp add: dead_letters_of_def filter_key_absent)
  moreover have "rows_with_id i db \<le> 1"
    unfolding rows_with_id_def
    by (rule distinct_map_filter_le_1) (use assms in \<open>simp add: store_ok_def\<close>)
  ultimately show ?thesis by simp
next
  case False
  then have "rows_with_id i db = 0"
    by (simp add: rows_with_id_def filter_key_absent)
  moreover have "dead_letters_of i db \<le> 1"
    unfolding dead_letters_of_def
    by (rule distinct_map_filter_le_1) (use assms in \<open>simp add: store_ok_def\<close>)
  ultimately show ?thesis by simp
qed

text \<open>
  Claim C9. In every reachable state no identifier has more than one row in all: a row of
  \<^verbatim>\<open>messages\<close> or a dead-letter copy, never both and never two of either, so each message
  in the store has exactly one row in exactly one of the two tables. And whenever a
  consumer calls \<^verbatim>\<open>moveToDeadLetter\<close> for a failed message it holds, the transaction
  either throws and leaves the database as it was, or commits with the message gone from
  \<^verbatim>\<open>messages\<close> and exactly one dead-letter copy of it: the insert and the delete take
  effect together or not at all.
\<close>

theorem one_home_per_message_id:
  assumes "reachable s"
  shows "(\<forall>i. rows_with_id i (store s) + dead_letters_of i (store s) \<le> 1)
       \<and> (\<forall>m e u now. (m, Failing e) \<in> inflight s \<longrightarrow>
            (case moveToDeadLetter u now m e (store s) of
               (Inl err, db') \<Rightarrow> db' = store s
             | (Inr ok, db') \<Rightarrow>
                 rows_with_id (m_id m) db' = 0 \<and> dead_letters_of (m_id m) db' = 1))"
proof (intro conjI allI impI)
  fix i
  from reachable_consistent [OF assms] have "store_ok (store s)" by (simp add: consistent_def)
  then show "rows_with_id i (store s) + dead_letters_of i (store s) \<le> 1"
    by (rule store_ok_one_home)
next
  fix m e u now assume fl: "(m, Failing e) \<in> inflight s"
  from reachable_consistent [OF assms] have "inflight_ok (store s) (inflight s)" by (simp add: consistent_def)
  with fl have a: "m_id m \<notin> d_original_id ` set (dead_letter_messages (store s))"
    unfolding inflight_ok_def by force
  consider err where "moveToDeadLetter u now m e (store s) = (Inl err, store s)"
    | d where "moveToDeadLetter u now m e (store s)
              = (Inr (), (store s)\<lparr>dead_letter_messages := dead_letter_messages (store s) @ [d],
                   messages := filter (\<lambda>r. r_id r \<noteq> m_id m) (messages (store s))\<rparr>)"
         "d_original_id d = m_id m"
    using moveToDeadLetter_effect [of u now m e "store s"] by blast
  then show "case moveToDeadLetter u now m e (store s) of
               (Inl err, db') \<Rightarrow> db' = store s
             | (Inr ok, db') \<Rightarrow>
                 rows_with_id (m_id m) db' = 0 \<and> dead_letters_of (m_id m) db' = 1"
  proof cases
    case 1
    then show ?thesis by simp
  next
    case 2
    from a have "filter (\<lambda>d. d_original_id d = m_id m) (dead_letter_messages (store s)) = []"
      by (rule filter_key_absent)
    with 2 show ?thesis
      by (simp add: rows_with_id_def dead_letters_of_def)
  qed
qed

lemma store_sys_sent: "store sys_sent = db_one"
  by (simp add: sys_sent_def sys_start_def send_def executeTransaction_def insert_message_def
      no_options_def db_one_def row_m1_def send_row_def)

lemma reachable_sys_sent: "reachable sys_sent"
proof -
  have "reachable sys_start"
    unfolding sys_start_def by (rule reachable.start)
  then show ?thesis
    unfolding sys_sent_def by (rule reachable.send_step) (simp add: sys_start_def)
qed

lemma reachable_sys_claimed: "reachable sys_claimed"
  unfolding sys_claimed_def
  by (rule reachable.fetch_step [OF reachable_sys_sent, of "''jobs''" 1 1000])
    (simp add: store_sys_sent fetch_db_one)

lemma reachable_sys_failed: "reachable sys_failed"
  unfolding sys_failed_def
  by (rule reachable.failed_step [OF reachable_sys_claimed, of _ "Rejected ''boom''"])
    (simp_all add: sys_claimed_def failure_of_def)

lemma store_sys_failed:
  "store sys_failed
     = \<lparr>queues = [''jobs''],
        messages = [row_m1\<lparr>r_status := Failed, r_failed_at := Some 1,
                           r_error_message := Some ''boom'', r_processing_time := Some 1\<rparr>],
        dead_letter_messages = []\<rparr>"
  by (simp add: sys_failed_def sys_claimed_def store_sys_sent fetch_db_one markMessageFailed_def
      executeTransaction_def update_where_id_def mark_processing_def to_seconds_def)

theorem one_home_per_message_id_witness:
  "reachable sys_failed
   \<and> (row_to_message row_m1, Failing ''boom'') \<in> inflight sys_failed
   \<and> rows_with_id ''m1'' (store sys_failed) = 1
   \<and> dead_letters_of ''m1'' (store sys_failed) = 0
   \<and> (\<exists>db'. moveToDeadLetter ''d1'' 1000 (row_to_message row_m1) ''boom'' (store sys_failed)
               = (Inr (), db')
          \<and> rows_with_id ''m1'' db' = 0 \<and> dead_letters_of ''m1'' db' = 1)"
proof -
  have fl: "(row_to_message row_m1, Failing ''boom'') \<in> inflight sys_failed"
    by (simp add: sys_failed_def)
  obtain db' where mv: "moveToDeadLetter ''d1'' 1000 (row_to_message row_m1) ''boom''
                          (store sys_failed) = (Inr (), db')"
    by (simp add: store_sys_failed moveToDeadLetter_def executeTransaction_def
        insert_dead_letter_def dead_letter_of_def row_to_message_def row_m1_eval)
  from one_home_per_message_id [OF reachable_sys_failed, THEN conjunct2, rule_format, OF fl,
      of "''d1''" 1000]
  have "case moveToDeadLetter ''d1'' 1000 (row_to_message row_m1) ''boom'' (store sys_failed) of
          (Inl err, db') \<Rightarrow> db' = store sys_failed
        | (Inr ok, db') \<Rightarrow>
            rows_with_id (m_id (row_to_message row_m1)) db' = 0
            \<and> dead_letters_of (m_id (row_to_message row_m1)) db' = 1" .
  with mv have "rows_with_id ''m1'' db' = 0 \<and> dead_letters_of ''m1'' db' = 1"
    by (simp add: row_m1_eval)
  moreover have "rows_with_id ''m1'' (store sys_failed) = 1"
    "dead_letters_of ''m1'' (store sys_failed) = 0"
    by (simp_all add: store_sys_failed rows_with_id_def dead_letters_of_def row_m1_eval)
  ultimately show ?thesis
    using reachable_sys_failed fl mv by blast
qed

section \<open>Two consumers on one queue: theorems\<close>

lemma invocations_total: "invocations First log + invocations Second log = length log"
proof -
  have "filter (\<lambda>x. fst x = Second) log = filter (\<lambda>x. \<not> fst x = First) log"
    by (rule filter_cong [OF refl]) (metis consumer_id.exhaust consumer_id.distinct(1))
  then show ?thesis
    unfolding invocations_def by (simp only: sum_length_filter_compl)
qed

lemma messages_fold_completed:
  "messages (fold (\<lambda>m. fold (run_call (f m) now) (attempt_calls m Resolved 0 cfg)) msgs db)
     = map (\<lambda>r. if r_id r \<in> m_id ` set msgs
                 then r\<lparr>r_status := Completed, r_processed_at := Some (to_seconds now),
                        r_processing_time := Some 0\<rparr>
                 else r) (messages db)"
proof (induction msgs arbitrary: db)
  case Nil
  then show ?case by simp
next
  case (Cons m msgs)
  let ?c = "\<lambda>r. r\<lparr>r_status := Completed, r_processed_at := Some (to_seconds now),
                        r_processing_time := Some 0\<rparr>"
  let ?db1 = "fold (run_call (f m) now) (attempt_calls m Resolved 0 cfg) db"
  have m1: "messages ?db1 = map (\<lambda>r. if r_id r = m_id m then ?c r else r) (messages db)"
    by (simp add: attempt_calls_def processMessage_def failure_of_def markMessageCompleted_def
        executeTransaction_def update_where_id_def)
  have "messages (fold (\<lambda>m. fold (run_call (f m) now) (attempt_calls m Resolved 0 cfg)) (m # msgs) db)
          = messages (fold (\<lambda>m. fold (run_call (f m) now) (attempt_calls m Resolved 0 cfg)) msgs ?db1)"
    by simp
  also have "\<dots> = map (\<lambda>r. if r_id r \<in> m_id ` set msgs then ?c r else r) (messages ?db1)"
    by (rule Cons.IH)
  also have "\<dots> = map (\<lambda>r. if r_id r \<in> m_id ` set (m # msgs) then ?c r else r) (messages db)"
    unfolding m1 by auto
  finally show ?case .
qed

lemma processMessages_mismatch:
  "\<not> in_int64 b \<Longrightarrow> processMessages q b h cfg f now db = ([], db)"
  by (simp add: processMessages_def fetchMessages_mismatch)

lemma processMessages_resolving:
  assumes h: "\<forall>m. h m = Resolved" and i: "in_int64 b"
  shows "fst (processMessages q b h cfg f now db)
           = map row_to_message (select_pending q b (to_seconds now) db)"
    and "messages (snd (processMessages q b h cfg f now db))
           = map (\<lambda>r. if r_id r \<in> r_id ` set (select_pending q b (to_seconds now) db)
                       then (mark_processing (to_seconds now) r)
                              \<lparr>r_status := Completed, r_processed_at := Some (to_seconds now),
                               r_processing_time := Some 0\<rparr>
                       else r) (messages db)"
proof -
  let ?s = "to_seconds now"
  let ?rows = "select_pending q b ?s db"
  let ?msgs = "map row_to_message ?rows"
  let ?db1 = "fold (\<lambda>msg. updateStmt_run ?s (m_id msg)) ?msgs db"
  have hh: "(\<lambda>message. fold (run_call (f message) now) (attempt_calls message (h message) 0 cfg))
            = (\<lambda>message. fold (run_call (f message) now) (attempt_calls message Resolved 0 cfg))"
    using h by simp
  have p: "processMessages q b h cfg f now db
             = (?msgs, fold (\<lambda>m. fold (run_call (f m) now) (attempt_calls m Resolved 0 cfg)) ?msgs ?db1)"
    unfolding processMessages_def fetchMessages_eq [OF i] hh by simp
  show "fst (processMessages q b h cfg f now db) = ?msgs" by (simp add: p)
  have img: "m_id ` set ?msgs = r_id ` set ?rows" by (simp add: image_image)
  show "messages (snd (processMessages q b h cfg f now db))
           = map (\<lambda>r. if r_id r \<in> r_id ` set ?rows
                       then (mark_processing ?s r)
                              \<lparr>r_status := Completed, r_processed_at := Some ?s,
                               r_processing_time := Some 0\<rparr>
                       else r) (messages db)"
    unfolding p snd_conv messages_fold_completed messages_fold_updateStmt img
    by (simp add: o_def if_distrib [of "\<lambda>r. r_id r"] cong: if_cong)
qed

lemma length_filter_split:
  "length (filter P xs) = length (filter (\<lambda>x. P x \<and> \<not> Q x) xs) + length (filter (\<lambda>x. P x \<and> Q x) xs)"
  by (induction xs) auto

lemma length_filter_ids:
  assumes d: "distinct (map r_id ms)" and dr: "distinct (map r_id rows)"
    and rows: "\<forall>r \<in> set rows. r \<in> set ms \<and> P r"
  shows "length (filter (\<lambda>r. P r \<and> r_id r \<in> r_id ` set rows) ms) = length rows"
proof -
  let ?R = "r_id ` set rows"
  have dm: "distinct ms" using d by (simp add: distinct_map)
  have drr: "distinct rows" using dr by (simp add: distinct_map)
  have sel: "set (filter (\<lambda>r. P r \<and> r_id r \<in> ?R) ms) = set rows"
  proof
    show "set (filter (\<lambda>r. P r \<and> r_id r \<in> ?R) ms) \<subseteq> set rows"
    proof
      fix r assume "r \<in> set (filter (\<lambda>r. P r \<and> r_id r \<in> ?R) ms)"
      then have r: "r \<in> set ms" "r_id r \<in> ?R" by auto
      then obtain r0 where r0: "r0 \<in> set rows" "r_id r0 = r_id r" by auto
      with rows have "r0 \<in> set ms" by blast
      from distinct_map_same_key [OF d this r(1) r0(2)] r0(1) show "r \<in> set rows" by simp
    qed
    show "set rows \<subseteq> set (filter (\<lambda>r. P r \<and> r_id r \<in> ?R) ms)"
      using rows by auto
  qed
  have "distinct (filter (\<lambda>r. P r \<and> r_id r \<in> ?R) ms)"
    using dm by (rule distinct_filter)
  then have "length (filter (\<lambda>r. P r \<and> r_id r \<in> ?R) ms)
               = card (set (filter (\<lambda>r. P r \<and> r_id r \<in> ?R) ms))"
    by (rule distinct_card [symmetric])
  also have "\<dots> = card (set rows)" by (simp only: sel)
  also have "\<dots> = length rows" using drr by (rule distinct_card)
  finally show ?thesis .
qed

lemma filter_map_completed:
  assumes "\<And>r. r_status (g r) \<noteq> Pending"
  shows "filter (\<lambda>r. r_queue_name r = q \<and> r_status r = Pending)
           (map (\<lambda>r. if r_id r \<in> R then g r else r) ms)
         = filter (\<lambda>r. (r_queue_name r = q \<and> r_status r = Pending) \<and> \<not> r_id r \<in> R) ms"
  using assms by (induction ms) auto

text \<open>What one poll of a consumer whose handler always resolves does to the queue.\<close>

lemma poll_resolving:
  assumes h: "\<forall>m. h m = Resolved" and d: "distinct (map r_id (messages db))"
  shows "\<exists>rows.
      fst (processMessages q b h cfg f now db) = map row_to_message rows
    \<and> distinct (map r_id rows)
    \<and> (\<forall>r \<in> set rows. r \<in> set (messages db) \<and> r_queue_name r = q \<and> r_status r = Pending)
    \<and> filter (\<lambda>r. r_queue_name r = q \<and> r_status r = Pending)
         (messages (snd (processMessages q b h cfg f now db)))
       = filter (\<lambda>r. (r_queue_name r = q \<and> r_status r = Pending) \<and> \<not> r_id r \<in> r_id ` set rows)
           (messages db)
    \<and> map r_id (messages (snd (processMessages q b h cfg f now db))) = map r_id (messages db)
    \<and> length rows + pending_in q (snd (processMessages q b h cfg f now db)) = pending_in q db
    \<and> (in_int64 b \<longrightarrow> rows = select_pending q b (to_seconds now) db)"
proof (cases "in_int64 b")
  case False
  have "processMessages q b h cfg f now db = ([], db)"
    by (rule processMessages_mismatch [OF False])
  with False show ?thesis by (intro exI [of _ "[]"]) simp
next
  case True
  let ?s = "to_seconds now"
  let ?rows = "select_pending q b ?s db"
  let ?P = "\<lambda>r. r_queue_name r = q \<and> r_status r = Pending"
  let ?g = "\<lambda>r. (mark_processing ?s r)\<lparr>r_status := Completed, r_processed_at := Some ?s,
                               r_processing_time := Some 0\<rparr>"
  let ?db' = "snd (processMessages q b h cfg f now db)"
  note pm = processMessages_resolving [OF h True, of q cfg f now db]
  have a: "fst (processMessages q b h cfg f now db) = map row_to_message ?rows" by (rule pm(1))
  have m: "messages ?db' = map (\<lambda>r. if r_id r \<in> r_id ` set ?rows then ?g r else r) (messages db)"
    by (rule pm(2))
  have b: "distinct (map r_id ?rows)" by (rule distinct_select_pending [OF d])
  have c: "\<forall>r \<in> set ?rows. r \<in> set (messages db) \<and> ?P r"
  proof
    fix r assume "r \<in> set ?rows"
    from select_pending_rows [OF this] show "r \<in> set (messages db) \<and> ?P r"
      by (simp add: pending_available_def)
  qed
  have e: "filter ?P (messages ?db')
             = filter (\<lambda>r. ?P r \<and> \<not> r_id r \<in> r_id ` set ?rows) (messages db)"
    unfolding m by (rule filter_map_completed) simp
  have i: "map r_id (messages ?db') = map r_id (messages db)"
    unfolding m by (simp add: o_def mark_processing_def if_distrib [of r_id] cong: if_cong)
  have "pending_in q db
          = length (filter (\<lambda>r. ?P r \<and> \<not> r_id r \<in> r_id ` set ?rows) (messages db))
            + length (filter (\<lambda>r. ?P r \<and> r_id r \<in> r_id ` set ?rows) (messages db))"
    unfolding pending_in_def by (rule length_filter_split)
  also have "length (filter (\<lambda>r. ?P r \<and> r_id r \<in> r_id ` set ?rows) (messages db)) = length ?rows"
    by (rule length_filter_ids [OF d b c])
  finally have n: "length ?rows + pending_in q ?db' = pending_in q db"
    unfolding pending_in_def e by simp
  from a b c e i n show ?thesis by blast
qed

text \<open>
  A schedule of polls by two consumers whose handlers always resolve, on a database with
  distinct ids: every invocation takes one pending message of the queue away, no message
  is handed to a handler twice, every message handed out was pending at the start, and
  the pending rows only shrink.
\<close>

lemma run_polls_resolving:
  assumes h1: "\<forall>m. c_handler first m = Resolved" and h2: "\<forall>m. c_handler second m = Resolved"
  shows "distinct (map r_id (messages db)) \<Longrightarrow>
     length (fst (run_polls q first second f polls db))
       + pending_in q (snd (run_polls q first second f polls db)) = pending_in q db
   \<and> distinct (map (m_id \<circ> snd) (fst (run_polls q first second f polls db)))
   \<and> (m_id \<circ> snd) ` set (fst (run_polls q first second f polls db))
        \<subseteq> r_id ` set (filter (\<lambda>r. r_queue_name r = q \<and> r_status r = Pending) (messages db))
   \<and> set (filter (\<lambda>r. r_queue_name r = q \<and> r_status r = Pending)
            (messages (snd (run_polls q first second f polls db))))
        \<subseteq> set (filter (\<lambda>r. r_queue_name r = q \<and> r_status r = Pending) (messages db))"
proof (induction polls arbitrary: db)
  case Nil
  then show ?case by simp
next
  case (Cons p polls)
  obtain c b now where p: "p = (c, b, now)" by (cases p)
  let ?P = "\<lambda>r. r_queue_name r = q \<and> r_status r = Pending"
  let ?h = "c_handler (case c of First \<Rightarrow> first | Second \<Rightarrow> second)"
  let ?cfg = "c_deadLetterQueue (case c of First \<Rightarrow> first | Second \<Rightarrow> second)"
  let ?poll = "processMessages q b ?h ?cfg f now db"
  let ?db1 = "snd ?poll"
  let ?rest = "run_polls q first second f polls ?db1"
  have h: "\<forall>m. ?h m = Resolved" using h1 h2 by (cases c) simp_all
  from poll_resolving [OF h Cons.prems, of q b ?cfg f now] obtain rows where
    r: "fst ?poll = map row_to_message rows"
       "distinct (map r_id rows)"
       "\<forall>r \<in> set rows. r \<in> set (messages db) \<and> ?P r"
       "filter ?P (messages ?db1) = filter (\<lambda>r. ?P r \<and> \<not> r_id r \<in> r_id ` set rows) (messages db)"
       "map r_id (messages ?db1) = map r_id (messages db)"
       "length rows + pending_in q ?db1 = pending_in q db"
    by blast
  have d1: "distinct (map r_id (messages ?db1))" using Cons.prems by (simp only: r(5))
  note IH = Cons.IH [OF d1]
  have run: "run_polls q first second f (p # polls) db
               = (map (Pair c) (fst ?poll) @ fst ?rest, snd ?rest)"
    unfolding p by (simp add: case_prod_beta)
  have sub1: "set (filter ?P (messages ?db1)) \<subseteq> set (filter ?P (messages db))"
    unfolding r(4) by auto
  have ids_first: "map (m_id \<circ> snd) (map (Pair c) (fst ?poll)) = map r_id rows"
    unfolding r(1) by (simp add: o_def)
  have count: "length (fst (run_polls q first second f (p # polls) db))
       + pending_in q (snd (run_polls q first second f (p # polls) db)) = pending_in q db"
    unfolding run using IH r(6) by (simp add: r(1))
  have rest_ids: "(m_id \<circ> snd) ` set (fst ?rest) \<subseteq> r_id ` set (filter ?P (messages ?db1))"
    using IH by blast
  have disj: "set (map r_id rows) \<inter> (m_id \<circ> snd) ` set (fst ?rest) = {}"
  proof -
    have "r_id ` set (filter ?P (messages ?db1)) \<inter> r_id ` set rows = {}"
      unfolding r(4) by auto
    with rest_ids show ?thesis by auto
  qed
  have dist: "distinct (map (m_id \<circ> snd) (fst (run_polls q first second f (p # polls) db)))"
  proof -
    have "map (m_id \<circ> snd) (fst (run_polls q first second f (p # polls) db))
            = map r_id rows @ map (m_id \<circ> snd) (fst ?rest)"
      unfolding run fst_conv map_append ids_first ..
    moreover have "distinct (map (m_id \<circ> snd) (fst ?rest))" using IH by blast
    ultimately show ?thesis using r(2) disj by simp
  qed
  have ids: "(m_id \<circ> snd) ` set (fst (run_polls q first second f (p # polls) db))
        \<subseteq> r_id ` set (filter ?P (messages db))"
  proof -
    have "(m_id \<circ> snd) ` set (fst (run_polls q first second f (p # polls) db))
            = set (map r_id rows) \<union> (m_id \<circ> snd) ` set (fst ?rest)"
      unfolding run fst_conv set_append image_Un
      using ids_first by (metis list.set_map)
    moreover have "set (map r_id rows) \<subseteq> r_id ` set (filter ?P (messages db))"
      using r(3) by auto
    moreover have "(m_id \<circ> snd) ` set (fst ?rest) \<subseteq> r_id ` set (filter ?P (messages db))"
      using rest_ids sub1 by blast
    ultimately show ?thesis by simp
  qed
  have sub: "set (filter ?P (messages (snd (run_polls q first second f (p # polls) db))))
        \<subseteq> set (filter ?P (messages db))"
  proof -
    have "set (filter ?P (messages (snd ?rest))) \<subseteq> set (filter ?P (messages ?db1))"
      using IH by blast
    with sub1 show ?thesis unfolding run snd_conv by blast
  qed
  from count dist ids sub show ?case by blast
qed

text \<open>If some poll of the schedule asks for at least as many messages as are pending, at a
  time when all of them are available, nothing is left pending at the end.\<close>

lemma run_polls_drains:
  assumes h1: "\<forall>m. c_handler first m = Resolved" and h2: "\<forall>m. c_handler second m = Resolved"
  shows "distinct (map r_id (messages db)) \<Longrightarrow> (c, b, now) \<in> set polls \<Longrightarrow> in_int64 b \<Longrightarrow>
     int (pending_in q db) \<le> b \<Longrightarrow>
     \<forall>r \<in> set (messages db). r_queue_name r = q \<and> r_status r = Pending
        \<longrightarrow> available (to_seconds now) r \<Longrightarrow>
     pending_in q (snd (run_polls q first second f polls db)) = 0"
proof (induction polls arbitrary: db)
  case Nil
  then show ?case by simp
next
  case (Cons p polls)
  obtain c0 b0 now0 where p: "p = (c0, b0, now0)" by (cases p)
  let ?P = "\<lambda>r. r_queue_name r = q \<and> r_status r = Pending"
  let ?h = "c_handler (case c0 of First \<Rightarrow> first | Second \<Rightarrow> second)"
  let ?cfg = "c_deadLetterQueue (case c0 of First \<Rightarrow> first | Second \<Rightarrow> second)"
  let ?poll = "processMessages q b0 ?h ?cfg f now0 db"
  let ?db1 = "snd ?poll"
  let ?rest = "run_polls q first second f polls ?db1"
  have h: "\<forall>m. ?h m = Resolved" using h1 h2 by (cases c0) simp_all
  from poll_resolving [OF h Cons.prems(1), of q b0 ?cfg f now0] obtain rows where
    r: "filter ?P (messages ?db1) = filter (\<lambda>r. ?P r \<and> \<not> r_id r \<in> r_id ` set rows) (messages db)"
       "map r_id (messages ?db1) = map r_id (messages db)"
       "length rows + pending_in q ?db1 = pending_in q db"
       "in_int64 b0 \<longrightarrow> rows = select_pending q b0 (to_seconds now0) db"
    by blast
  have d1: "distinct (map r_id (messages ?db1))" using Cons.prems(1) by (simp only: r(2))
  have run: "snd (run_polls q first second f (p # polls) db) = snd ?rest"
    unfolding p by (simp add: case_prod_beta)
  from run_polls_resolving [OF h1 h2 d1, of q f polls]
  have mono: "pending_in q (snd ?rest) \<le> pending_in q ?db1" by linarith
  show ?case
  proof (cases "(c, b, now) = p")
    case True
    then have eq: "c0 = c" "b0 = b" "now0 = now" using p by simp_all
    have cands: "filter (pending_available q (to_seconds now)) (messages db) = filter ?P (messages db)"
      by (rule filter_cong [OF refl]) (use Cons.prems(5) in \<open>auto simp: pending_available_def\<close>)
    have "rows = select_pending q b (to_seconds now) db" using r(4) Cons.prems(3) eq by simp
    then have "length rows = (if b < 0 then pending_in q db else min (nat b) (pending_in q db))"
      by (simp add: select_pending_length cands pending_in_def)
    with Cons.prems(4) have "length rows = pending_in q db" by (simp split: if_splits)
    with r(3) have "pending_in q ?db1 = 0" by simp
    with mono show ?thesis unfolding run by simp
  next
    case False
    with Cons.prems(2) have mem: "(c, b, now) \<in> set polls" by auto
    have le: "int (pending_in q ?db1) \<le> b" using r(3) Cons.prems(4) by linarith
    have av: "\<forall>r \<in> set (messages ?db1). r_queue_name r = q \<and> r_status r = Pending
                \<longrightarrow> available (to_seconds now) r"
    proof (intro ballI impI)
      fix x assume "x \<in> set (messages ?db1)" "r_queue_name x = q \<and> r_status x = Pending"
      then have "x \<in> set (filter ?P (messages ?db1))" by simp
      then have "x \<in> set (messages db) \<and> ?P x" unfolding r(1) by simp
      with Cons.prems(5) show "available (to_seconds now) x" by blast
    qed
    from Cons.IH [OF d1 mem Cons.prems(3) le av] show ?thesis unfolding run .
  qed
qed

text \<open>A claim never returns a message that is in flight: its row is not pending.\<close>

lemma claim_avoids_inflight:
  assumes r: "reachable s" and f: "fetchMessages q lim now (store s) = (Inr msgs, db')"
    and m: "m \<in> set msgs" and x: "x \<in> inflight s"
  shows "m_id (fst x) \<noteq> m_id m"
proof
  assume eq: "m_id (fst x) = m_id m"
  from fetch_shape [OF f] obtain rows where
    rows: "msgs = map row_to_message rows"
      "\<forall>r \<in> set rows. r \<in> set (messages (store s)) \<and> r_status r = Pending"
    by blast
  from m rows(1) obtain r0 where r0: "r0 \<in> set rows" "m = row_to_message r0" by auto
  with rows(2) have p: "r0 \<in> set (messages (store s))" "r_status r0 = Pending" by simp_all
  from reachable_consistent [OF r] have "inflight_ok (store s) (inflight s)"
    by (simp add: consistent_def)
  then have "\<forall>x \<in> inflight s. \<forall>r \<in> set (messages (store s)).
               r_id r = m_id (fst x) \<longrightarrow> r_status r \<noteq> Pending"
    unfolding inflight_ok_def by blast
  with x p(1) eq r0(2) have "r_status r0 \<noteq> Pending" by simp
  with p(2) show False by simp
qed

lemma row_m2_eval:
  "row_m2 = \<lparr>r_id = ''m2'', r_queue_name = ''jobs'', r_payload = JStr ''y'', r_status = Pending,
     r_priority = 5, r_retries = 0, r_max_retries = 3, r_created_at = 0,
     r_available_at = Some 0,
     r_processed_at = None, r_failed_at = None, r_error_message = None,
     r_processing_time = None, r_metadata = None, r_deduplication_id = None,
     r_expires_at = None\<rparr>"
  by (simp add: row_m2_def send_row_def no_options_def to_seconds_def truthy_string_def
      date_seconds_def)

lemma store_sys_two: "store sys_two = db_two"
  by (simp add: sys_two_def store_sys_sent send_def executeTransaction_def insert_message_def
      no_options_def db_one_def db_two_def row_m1_eval row_m2_def send_row_def)

lemma reachable_sys_two: "reachable sys_two"
  unfolding sys_two_def
  by (rule reachable.send_step [OF reachable_sys_sent]) (simp add: sys_sent_def sys_start_def)

lemma fetch_db_two:
  "fetchMessages ''jobs'' 1 1000 db_two
     = (Inr [row_to_message row_m1],
        \<lparr>queues = [''jobs''], messages = [mark_processing 1 row_m1, row_m2],
         dead_letter_messages = []\<rparr>)"
  by (simp add: db_two_def fetchMessages_eq in_int64_def select_pending_def sql_limit_def
      to_seconds_def pending_available_def available_def updateStmt_run_def update_where_id_def
      row_m1_eval row_m2_eval)

lemma store_sys_first_claimed:
  "store sys_first_claimed
     = \<lparr>queues = [''jobs''], messages = [mark_processing 1 row_m1, row_m2],
        dead_letter_messages = []\<rparr>"
  by (simp add: sys_first_claimed_def store_sys_two fetch_db_two)

lemma reachable_sys_first_claimed: "reachable sys_first_claimed"
  unfolding sys_first_claimed_def
  by (rule reachable.fetch_step [OF reachable_sys_two, of "''jobs''" 1 1000])
    (simp add: store_sys_two fetch_db_two)

lemma fetch_sys_first_claimed:
  "fetchMessages ''jobs'' 1 1000 (store sys_first_claimed)
     = (Inr [row_to_message row_m2],
        \<lparr>queues = [''jobs''], messages = [mark_processing 1 row_m1, mark_processing 1 row_m2],
         dead_letter_messages = []\<rparr>)"
  unfolding store_sys_first_claimed
  by (simp add: fetchMessages_eq in_int64_def select_pending_def sql_limit_def to_seconds_def
      pending_available_def available_def updateStmt_run_def update_where_id_def
      row_m1_eval row_m2_eval mark_processing_def)

lemma reachable_sys_both_claimed: "reachable sys_both_claimed"
  unfolding sys_both_claimed_def
  by (rule reachable.fetch_step [OF reachable_sys_first_claimed, of "''jobs''" 1 1000])
    (simp add: fetch_sys_first_claimed)

text \<open>
  Claim C2, as the code has it. Two consumers poll one queue whose table has distinct ids
  and exactly two pending messages, and every handler invocation resolves. For every
  schedule of polls (who polls, with what batch size, when): the handler invocations of
  both consumers and the messages still pending add up to 2; no message is handed to a
  handler twice, and every message handed out was one of the pending ones; and when the
  schedule has a poll that asks for at least 2 messages at a time when both are
  available, the invocations are exactly 2. In every reachable state of the interleaved
  transactions, whatever the handlers do: no two attempts in flight are for the same
  message, no row of a message in flight is pending, and so no claim returns a message
  that is in flight. An attempt is in flight from its claim until its outcome is
  recorded.
\<close>

theorem two_consumers_resolving_handlers:
  assumes "distinct (map r_id (messages db))"
    and "pending_in queueName db = 2"
    and "\<forall>m. c_handler first m = Resolved" and "\<forall>m. c_handler second m = Resolved"
  shows "invocations First (fst (run_polls queueName first second dlqIdFor polls db))
           + invocations Second (fst (run_polls queueName first second dlqIdFor polls db))
           + pending_in queueName (snd (run_polls queueName first second dlqIdFor polls db)) = 2
     \<and> distinct (map (m_id \<circ> snd) (fst (run_polls queueName first second dlqIdFor polls db)))
     \<and> (\<forall>x \<in> set (fst (run_polls queueName first second dlqIdFor polls db)).
           \<exists>r \<in> set (messages db). r_id r = m_id (snd x) \<and> r_queue_name r = queueName
              \<and> r_status r = Pending)
     \<and> ((\<exists>c b now. (c, b, now) \<in> set polls \<and> in_int64 b \<and> 2 \<le> b
            \<and> (\<forall>r \<in> set (messages db). r_queue_name r = queueName \<and> r_status r = Pending
                  \<longrightarrow> available (to_seconds now) r))
          \<longrightarrow> invocations First (fst (run_polls queueName first second dlqIdFor polls db))
                + invocations Second (fst (run_polls queueName first second dlqIdFor polls db)) = 2)
     \<and> (\<forall>s. reachable s \<longrightarrow>
           (\<forall>x \<in> inflight s. \<forall>y \<in> inflight s. m_id (fst x) = m_id (fst y) \<longrightarrow> x = y)
           \<and> (\<forall>x \<in> inflight s. \<forall>r \<in> set (messages (store s)).
                 r_id r = m_id (fst x) \<longrightarrow> r_status r \<noteq> Pending)
           \<and> (\<forall>q lim now msgs db'. fetchMessages q lim now (store s) = (Inr msgs, db')
                 \<longrightarrow> (\<forall>m \<in> set msgs. \<forall>x \<in> inflight s. m_id (fst x) \<noteq> m_id m)))"
proof -
  let ?R = "run_polls queueName first second dlqIdFor polls db"
  let ?P = "\<lambda>r. r_queue_name r = queueName \<and> r_status r = Pending"
  note rp = run_polls_resolving [OF assms(3,4,1), of queueName dlqIdFor polls]
  have tot: "invocations First (fst ?R) + invocations Second (fst ?R) = length (fst ?R)"
    by (rule invocations_total)
  have a: "invocations First (fst ?R) + invocations Second (fst ?R) + pending_in queueName (snd ?R) = 2"
    using rp assms(2) tot by simp
  have b: "distinct (map (m_id \<circ> snd) (fst ?R))" using rp by blast
  have c: "\<forall>x \<in> set (fst ?R). \<exists>r \<in> set (messages db). r_id r = m_id (snd x) \<and> ?P r"
  proof
    fix x assume "x \<in> set (fst ?R)"
    then have "(m_id \<circ> snd) x \<in> (m_id \<circ> snd) ` set (fst ?R)" by (rule imageI)
    with rp have "(m_id \<circ> snd) x \<in> r_id ` set (filter ?P (messages db))" by blast
    then show "\<exists>r \<in> set (messages db). r_id r = m_id (snd x) \<and> ?P r" by auto
  qed
  have d: "(\<exists>c b now. (c, b, now) \<in> set polls \<and> in_int64 b \<and> 2 \<le> b
            \<and> (\<forall>r \<in> set (messages db). ?P r \<longrightarrow> available (to_seconds now) r))
          \<longrightarrow> invocations First (fst ?R) + invocations Second (fst ?R) = 2"
  proof
    assume "\<exists>c b now. (c, b, now) \<in> set polls \<and> in_int64 b \<and> 2 \<le> b
            \<and> (\<forall>r \<in> set (messages db). ?P r \<longrightarrow> available (to_seconds now) r)"
    then obtain c b now where p: "(c, b, now) \<in> set polls" "in_int64 b" "2 \<le> b"
      "\<forall>r \<in> set (messages db). ?P r \<longrightarrow> available (to_seconds now) r"
      by blast
    from p(3) assms(2) have le: "int (pending_in queueName db) \<le> b" by simp
    from run_polls_drains [OF assms(3,4,1) p(1,2) le p(4), of dlqIdFor]
    have "pending_in queueName (snd ?R) = 0" .
    with a show "invocations First (fst ?R) + invocations Second (fst ?R) = 2" by simp
  qed
  have e: "\<forall>s. reachable s \<longrightarrow>
           (\<forall>x \<in> inflight s. \<forall>y \<in> inflight s. m_id (fst x) = m_id (fst y) \<longrightarrow> x = y)
           \<and> (\<forall>x \<in> inflight s. \<forall>r \<in> set (messages (store s)).
                 r_id r = m_id (fst x) \<longrightarrow> r_status r \<noteq> Pending)
           \<and> (\<forall>q lim now msgs db'. fetchMessages q lim now (store s) = (Inr msgs, db')
                 \<longrightarrow> (\<forall>m \<in> set msgs. \<forall>x \<in> inflight s. m_id (fst x) \<noteq> m_id m))"
  proof (intro allI impI)
    fix s assume r: "reachable s"
    from reachable_consistent [OF r] have ok: "inflight_ok (store s) (inflight s)"
      by (simp add: consistent_def)
    have e1: "\<forall>x \<in> inflight s. \<forall>y \<in> inflight s. m_id (fst x) = m_id (fst y) \<longrightarrow> x = y"
      using ok unfolding inflight_ok_def by blast
    have e2: "\<forall>x \<in> inflight s. \<forall>r \<in> set (messages (store s)).
                 r_id r = m_id (fst x) \<longrightarrow> r_status r \<noteq> Pending"
      using ok unfolding inflight_ok_def by blast
    have e3: "\<forall>q lim now msgs db'. fetchMessages q lim now (store s) = (Inr msgs, db')
                 \<longrightarrow> (\<forall>m \<in> set msgs. \<forall>x \<in> inflight s. m_id (fst x) \<noteq> m_id m)"
      using claim_avoids_inflight [OF r] by blast
    from e1 e2 e3 show "(\<forall>x \<in> inflight s. \<forall>y \<in> inflight s. m_id (fst x) = m_id (fst y) \<longrightarrow> x = y)
           \<and> (\<forall>x \<in> inflight s. \<forall>r \<in> set (messages (store s)).
                 r_id r = m_id (fst x) \<longrightarrow> r_status r \<noteq> Pending)
           \<and> (\<forall>q lim now msgs db'. fetchMessages q lim now (store s) = (Inr msgs, db')
                 \<longrightarrow> (\<forall>m \<in> set msgs. \<forall>x \<in> inflight s. m_id (fst x) \<noteq> m_id m))"
      by blast
  qed
  from a b c d e show ?thesis by blast
qed

text \<open>The run where each consumer takes one of the two messages.\<close>

theorem two_consumers_resolving_handlers_witness:
  "distinct (map r_id (messages db_two))
   \<and> pending_in ''jobs'' db_two = 2
   \<and> c_handler resolving (row_to_message row_m1) = Resolved
   \<and> map (\<lambda>x. (fst x, m_id (snd x)))
        (fst (run_polls ''jobs'' resolving resolving (\<lambda>m. ''d1'')
                [(First, 1, 1000), (Second, 2, 1000)] db_two))
       = [(First, ''m1''), (Second, ''m2'')]
   \<and> invocations First (fst (run_polls ''jobs'' resolving resolving (\<lambda>m. ''d1'')
                [(First, 1, 1000), (Second, 2, 1000)] db_two))
       + invocations Second (fst (run_polls ''jobs'' resolving resolving (\<lambda>m. ''d1'')
                [(First, 1, 1000), (Second, 2, 1000)] db_two)) = 2
   \<and> map r_status (messages (snd (run_polls ''jobs'' resolving resolving (\<lambda>m. ''d1'')
                [(First, 1, 1000), (Second, 2, 1000)] db_two))) = [Completed, Completed]
   \<and> reachable sys_both_claimed
   \<and> inflight sys_both_claimed
       = {(row_to_message row_m1, Claimed), (row_to_message row_m2, Claimed)}
   \<and> m_id (row_to_message row_m1) \<noteq> m_id (row_to_message row_m2)
   \<and> map r_status (messages (store sys_both_claimed)) = [Processing, Processing]
   \<and> reachable sys_first_claimed
   \<and> inflight sys_first_claimed = {(row_to_message row_m1, Claimed)}
   \<and> fst (fetchMessages ''jobs'' 2 1000 (store sys_first_claimed)) = Inr [row_to_message row_m2]"
proof -
  let ?polls = "[(First, 1, 1000), (Second, 2, 1000)] :: (consumer_id \<times> int \<times> millis) list"
  let ?R = "run_polls ''jobs'' resolving resolving (\<lambda>m. ''d1'') ?polls db_two"
  have d: "distinct (map r_id (messages db_two))" by code_simp
  have p: "pending_in ''jobs'' db_two = 2" by code_simp
  have h: "\<forall>m. c_handler resolving m = Resolved" by (simp add: resolving_def)
  have av: "\<forall>r \<in> set (messages db_two). r_queue_name r = ''jobs'' \<and> r_status r = Pending
              \<longrightarrow> available (to_seconds 1000) r"
    by (simp add: db_two_def row_m1_eval row_m2_eval available_def to_seconds_def)
  have ex: "\<exists>c b now. (c, b, now) \<in> set ?polls \<and> in_int64 b \<and> 2 \<le> b
            \<and> (\<forall>r \<in> set (messages db_two). r_queue_name r = ''jobs'' \<and> r_status r = Pending
                  \<longrightarrow> available (to_seconds now) r)"
    using av by (intro exI [of _ Second] exI [of _ 2] exI [of _ 1000]) (simp add: in_int64_def)
  from two_consumers_resolving_handlers [OF d p h h, of "\<lambda>m. ''d1''" ?polls] ex
  have two: "invocations First (fst ?R) + invocations Second (fst ?R) = 2" by blast
  have log: "map (\<lambda>x. (fst x, m_id (snd x))) (fst ?R) = [(First, ''m1''), (Second, ''m2'')]"
    by code_simp
  have st: "map r_status (messages (snd ?R)) = [Completed, Completed]"
    by code_simp
  have i2: "inflight sys_both_claimed
       = {(row_to_message row_m1, Claimed), (row_to_message row_m2, Claimed)}"
    by (auto simp: sys_both_claimed_def sys_first_claimed_def sys_two_def sys_sent_def
        sys_start_def)
  have i1: "inflight sys_first_claimed = {(row_to_message row_m1, Claimed)}"
    by (auto simp: sys_first_claimed_def sys_two_def sys_sent_def sys_start_def)
  have ne: "m_id (row_to_message row_m1) \<noteq> m_id (row_to_message row_m2)"
    by (simp add: row_m1_eval row_m2_eval)
  have s2: "map r_status (messages (store sys_both_claimed)) = [Processing, Processing]"
    by (simp add: sys_both_claimed_def fetch_sys_first_claimed mark_processing_def)
  have f2: "fst (fetchMessages ''jobs'' 2 1000 (store sys_first_claimed)) = Inr [row_to_message row_m2]"
    unfolding store_sys_first_claimed
    by (simp add: fetchMessages_eq in_int64_def select_pending_def sql_limit_def to_seconds_def
        pending_available_def available_def row_m1_eval row_m2_eval mark_processing_def)
  from d p h two log st reachable_sys_both_claimed i2 ne s2 reachable_sys_first_claimed i1 f2
  show ?thesis by simp
qed

text \<open>
  Claim C2 as stated fails when handlers reject: a rejected message is retried, and
  \<^verbatim>\<open>retries * 60\<close> makes its first retry available at once. With two messages and two
  consumers that poll with batch size 1 at seconds 0 and 1, the handler runs four times:
  both consumers get \<^verbatim>\<open>m1\<close> at second 0, and both get \<^verbatim>\<open>m2\<close> at second 1.
\<close>

theorem two_rejecting_consumers_invoke_four_times:
  "pending_in ''jobs'' db_two = 2
   \<and> length (messages db_two) = 2
   \<and> map (\<lambda>x. (fst x, m_id (snd x)))
        (fst (run_polls ''jobs'' rejecting rejecting (\<lambda>m. ''d1'')
                [(First, 1, 0), (Second, 1, 0), (First, 1, 1000), (Second, 1, 1000)] db_two))
       = [(First, ''m1''), (Second, ''m1''), (First, ''m2''), (Second, ''m2'')]
   \<and> invocations First (fst (run_polls ''jobs'' rejecting rejecting (\<lambda>m. ''d1'')
                [(First, 1, 0), (Second, 1, 0), (First, 1, 1000), (Second, 1, 1000)] db_two))
       + invocations Second (fst (run_polls ''jobs'' rejecting rejecting (\<lambda>m. ''d1'')
                [(First, 1, 0), (Second, 1, 0), (First, 1, 1000), (Second, 1, 1000)] db_two)) = 4"
  by code_simp

end
